theory Spec2Isabelle
  imports Complex_Main "HOL-Library.Word"
begin

section \<open>Numbers and pixel buffers\<close>

text \<open>
  The analysis pipeline of \<^verbatim>\<open>src/services/geminiService.ts\<close> and the camera of
  \<^verbatim>\<open>src/components/PSF3DViewer.tsx\<close> compute with JavaScript numbers. The model
  computes with exact reals in their place, so rounding of IEEE doubles is not
  represented. What a JavaScript division does at a zero divisor is represented:
  the result is one of the non-finite numbers below.
\<close>

datatype jsnum = Finite real | PosInfinity | NegInfinity | NaN

text \<open>
  \<^verbatim>\<open>a / b\<close> for finite \<^verbatim>\<open>a\<close> and \<^verbatim>\<open>b\<close>. Every divisor in the modelled code is a
  sum, a difference or a quotient of finite numbers, so a zero divisor is \<^verbatim>\<open>+0\<close>.
\<close>

definition js_div :: "real \<Rightarrow> real \<Rightarrow> jsnum" where
  "js_div a b =
     (if b \<noteq> 0 then Finite (a / b)
      else if a = 0 then NaN
      else if 0 < a then PosInfinity
      else NegInfinity)"

text \<open>
  An \<^verbatim>\<open>ImageData\<close>: \<^verbatim>\<open>data\<close> is a \<^verbatim>\<open>Uint8ClampedArray\<close> of four bytes (R, G, B, A)
  per pixel, row by row. The platform only builds values where both sides are at
  least 1 and \<^verbatim>\<open>data.length = 4 * width * height\<close>; \<open>wellformed\<close> states that.
\<close>

record ImageData =
  width :: nat
  height :: nat
  data :: "8 word list"

definition wellformed :: "ImageData \<Rightarrow> bool" where
  "wellformed img \<longleftrightarrow>
     0 < width img \<and> 0 < height img \<and> length (data img) = 4 * width img * height img"

text \<open>\<^verbatim>\<open>data[i]\<close> read as a number, for an index inside the array.\<close>

definition channel :: "ImageData \<Rightarrow> nat \<Rightarrow> real" where
  "channel img i = real (unat (data img ! i))"

text \<open>\<^verbatim>\<open>(data[idx] + data[idx + 1] + data[idx + 2]) / 3\<close>\<close>

definition intensityAt :: "ImageData \<Rightarrow> nat \<Rightarrow> real" where
  "intensityAt img idx =
     (channel img idx + channel img (idx + 1) + channel img (idx + 2)) / 3"

text \<open>The luminosity of the pixel in column \<open>x\<close> of row \<open>y\<close>.\<close>

definition pixelIntensity :: "ImageData \<Rightarrow> nat \<Rightarrow> nat \<Rightarrow> real" where
  "pixelIntensity img x y = intensityAt img ((y * width img + x) * 4)"

section \<open>calculateCentroid\<close>

record centroid_acc =
  totalMass :: real
  sumX :: real
  sumY :: real
  maxVal :: real

record Centroid =
  centroidX :: real
  centroidY :: real
  centroidMaxVal :: real

text \<open>The body of the inner loop, at row \<open>y\<close> and column \<open>x\<close>.\<close>

definition centroid_step :: "ImageData \<Rightarrow> nat \<Rightarrow> nat \<Rightarrow> centroid_acc \<Rightarrow> centroid_acc" where
  "centroid_step img y x s =
     (let idx = (y * width img + x) * 4;
          intensity = intensityAt img idx;
          s1 = (if intensity > maxVal s then s\<lparr>maxVal := intensity\<rparr> else s)
      in if intensity > maxVal s1 * 0.2
         then s1\<lparr>totalMass := totalMass s1 + intensity,
                 sumX := sumX s1 + real x * intensity,
                 sumY := sumY s1 + real y * intensity\<rparr>
         else s1)"

definition centroid_init :: centroid_acc where
  "centroid_init = \<lparr>totalMass = 0, sumX = 0, sumY = 0, maxVal = 0\<rparr>"

definition centroid_loop :: "ImageData \<Rightarrow> centroid_acc" where
  "centroid_loop img =
     fold (\<lambda>y. fold (centroid_step img y) [0..<width img]) [0..<height img] centroid_init"

definition calculateCentroid :: "ImageData \<Rightarrow> Centroid" where
  "calculateCentroid img =
     (let s = centroid_loop img
      in if totalMass s = 0
         then \<lparr>centroidX = real (width img) / 2, centroidY = real (height img) / 2,
               centroidMaxVal = 0\<rparr>
         else \<lparr>centroidX = sumX s / totalMass s, centroidY = sumY s / totalMass s,
               centroidMaxVal = maxVal s\<rparr>)"

section \<open>calculateCentroid in rounded arithmetic\<close>





section \<open>checkSaturation\<close>

text \<open>The body of the inner loop; \<open>x\<close> and \<open>y\<close> run over integers of either sign.\<close>

definition saturation_step :: "ImageData \<Rightarrow> int \<Rightarrow> int \<Rightarrow> nat \<Rightarrow> nat" where
  "saturation_step img y x saturatedPixels =
     (if x \<ge> 0 \<and> x < int (width img) \<and> y \<ge> 0 \<and> y < int (height img)
      then (let idx = nat ((y * int (width img) + x) * 4);
                r = data img ! idx;
                g = data img ! (idx + 1);
                b = data img ! (idx + 2)
            in if r \<ge> 250 \<or> g \<ge> 250 \<or> b \<ge> 250
               then saturatedPixels + 1 else saturatedPixels)
      else saturatedPixels)"

text \<open>
  The two loops, from \<^verbatim>\<open>Math.floor(center - radius)\<close> to
  \<^verbatim>\<open>Math.ceil(center + radius)\<close> inclusive on each axis.
\<close>

definition saturation_loop :: "ImageData \<Rightarrow> real \<Rightarrow> real \<Rightarrow> real \<Rightarrow> nat" where
  "saturation_loop img centerX centerY rad =
     fold (\<lambda>y. fold (saturation_step img y) [\<lfloor>centerX - rad\<rfloor>..\<lceil>centerX + rad\<rceil>])
       [\<lfloor>centerY - rad\<rfloor>..\<lceil>centerY + rad\<rceil>] 0"

definition checkSaturation :: "ImageData \<Rightarrow> real \<Rightarrow> real \<Rightarrow> real \<Rightarrow> bool" where
  "checkSaturation img centerX centerY rad \<longleftrightarrow> saturation_loop img centerX centerY rad > 4"

section \<open>calculateRadialProfile\<close>

record radial_acc =
  bins :: "real list"
  counts :: "nat list"

record RadialDataPoint =
  radius :: nat
  intensity :: jsnum
  idealDiffraction :: real

text \<open>
  The body of the inner loop. \<open>binIndex\<close> is below \<open>maxRadius\<close> whenever it is used, so
  both updates are inside the arrays.
\<close>

definition radial_step ::
  "ImageData \<Rightarrow> real \<Rightarrow> real \<Rightarrow> nat \<Rightarrow> nat \<Rightarrow> nat \<Rightarrow> radial_acc \<Rightarrow> radial_acc" where
  "radial_step img centerX centerY maxRadius y x s =
     (let dx = real x - centerX;
          dy = real y - centerY;
          distance = sqrt (dx * dx + dy * dy)
      in if distance < real maxRadius
         then (let binIndex = nat \<lfloor>distance\<rfloor>;
                   idx = (y * width img + x) * 4;
                   lum = intensityAt img idx
               in s\<lparr>bins := (bins s)[binIndex := bins s ! binIndex + lum],
                    counts := (counts s)[binIndex := counts s ! binIndex + 1]\<rparr>)
         else s)"

definition radial_loop :: "ImageData \<Rightarrow> real \<Rightarrow> real \<Rightarrow> nat \<Rightarrow> radial_acc" where
  "radial_loop img centerX centerY maxRadius =
     fold (\<lambda>y. fold (radial_step img centerX centerY maxRadius y) [0..<width img])
       [0..<height img]
       \<lparr>bins = replicate maxRadius 0, counts = replicate maxRadius 0\<rparr>"

text \<open>
  \<^verbatim>\<open>counts[0] > 0 ? bins[0] / counts[0] : 255\<close>; with \<^verbatim>\<open>maxRadius = 0\<close> the arrays are
  empty, \<^verbatim>\<open>counts[0]\<close> is \<^verbatim>\<open>undefined\<close> and the comparison is false.
\<close>

definition radial_peak :: "radial_acc \<Rightarrow> real" where
  "radial_peak s =
     (if 0 < length (counts s) \<and> counts s ! 0 > 0
      then bins s ! 0 / real (counts s ! 0) else 255)"

definition calculateRadialProfile ::
  "ImageData \<Rightarrow> real \<Rightarrow> real \<Rightarrow> nat \<Rightarrow> RadialDataPoint list" where
  "calculateRadialProfile img centerX centerY maxRadius =
     (let s = radial_loop img centerX centerY maxRadius;
          peak = radial_peak s
      in map (\<lambda>i.
               (let avgIntensity =
                      (if counts s ! i > 0 then bins s ! i / real (counts s ! i) else 0)
                in \<lparr>radius = i,
                    intensity = js_div avgIntensity peak,
                    idealDiffraction = exp (- 0.1 * real i * real i)\<rparr>))
           [0..<maxRadius])"

section \<open>cropImage: the log stretch\<close>

text \<open>
  A store into a \<^verbatim>\<open>Uint8ClampedArray\<close> clamps the number to 0..255 and rounds it to
  the nearest integer, a tie going to the even one.
\<close>

definition toUint8Clamp :: "real \<Rightarrow> 8 word" where
  "toUint8Clamp v =
     (let clamped = min (max v 0) 255;
          f = \<lfloor>clamped\<rfloor>
      in if clamped < real_of_int f + 0.5 then word_of_int f
         else if clamped > real_of_int f + 0.5 then word_of_int (f + 1)
         else if even f then word_of_int f
         else word_of_int (f + 1))"

text \<open>
  \<^verbatim>\<open>constant * Math.log(1 + v)\<close> with \<^verbatim>\<open>constant = 255 / Math.log(1 + 255)\<close>: the
  number computed for a channel that reads \<open>v\<close>.
\<close>

definition stretchValue :: "real \<Rightarrow> real" where
  "stretchValue v = 255 / ln (1 + 255) * ln (1 + v)"

text \<open>
  \<^verbatim>\<open>data[i] = constant * Math.log(1 + data[i])\<close>: what the channel holds after the
  store.
\<close>

definition logStretch :: "8 word \<Rightarrow> 8 word" where
  "logStretch v = toUint8Clamp (stretchValue (real (unat v)))"

text \<open>
  The loop \<^verbatim>\<open>for (i = 0; i < data.length; i += 4)\<close> over the whole array: R, G and B
  of each pixel are stretched, the fourth byte is not written.
\<close>

fun stretchData :: "8 word list \<Rightarrow> 8 word list" where
  "stretchData (r # g # b # a # rest) =
     logStretch r # logStretch g # logStretch b # a # stretchData rest"
| "stretchData [r, g, b] = [logStretch r, logStretch g, logStretch b]"
| "stretchData [r, g] = [logStretch r, logStretch g]"
| "stretchData [r] = [logStretch r]"
| "stretchData [] = []"

text \<open>The pixel buffer \<^verbatim>\<open>cropImage\<close> returns for a crop \<open>img\<close> read from the canvas.\<close>

definition cropImageData :: "ImageData \<Rightarrow> bool \<Rightarrow> ImageData" where
  "cropImageData img applyLogStretch =
     (if applyLogStretch then img\<lparr>data := stretchData (data img)\<rparr> else img)"

section \<open>estimateStats\<close>

text \<open>
  \<^verbatim>\<open>parseFloat(v.toFixed(f))\<close> for a finite \<^verbatim>\<open>v\<close>: the nearest multiple of
  \<open>10\<^sup>-\<^sup>f\<close>, a tie going away from zero; from \<open>10\<^sup>2\<^sup>1\<close> on \<^verbatim>\<open>toFixed\<close> prints the
  number itself.
\<close>

definition toFixed :: "nat \<Rightarrow> real \<Rightarrow> real" where
  "toFixed f v =
     (if 10 ^ 21 \<le> \<bar>v\<bar> then v
      else if v < 0 then - (real_of_int \<lfloor>- v * 10 ^ f + 1 / 2\<rfloor> / 10 ^ f)
      else real_of_int \<lfloor>v * 10 ^ f + 1 / 2\<rfloor> / 10 ^ f)"

text \<open>The same for any number: \<^verbatim>\<open>toFixed\<close> prints a non-finite number by name.\<close>

definition js_toFixed :: "nat \<Rightarrow> jsnum \<Rightarrow> jsnum" where
  "js_toFixed f v = (case v of Finite r \<Rightarrow> Finite (toFixed f r) | _ \<Rightarrow> v)"

record stats_acc =
  halfMaxCount :: nat
  backgroundSum :: real
  backgroundCount :: nat

record ProcessingStats =
  centroid :: "real \<times> real"
  fwhmPixels :: real
  snr :: jsnum
  peakIntensity :: int
  backgroundLevel :: int

text \<open>The body of the second pass, at byte index \<open>i\<close>.\<close>

definition stats_step :: "ImageData \<Rightarrow> Centroid \<Rightarrow> nat \<Rightarrow> stats_acc \<Rightarrow> stats_acc" where
  "stats_step img c i s =
     (let halfMax = centroidMaxVal c / 2;
          val = intensityAt img i;
          s1 = (if val > halfMax then s\<lparr>halfMaxCount := halfMaxCount s + 1\<rparr> else s)
      in if val < centroidMaxVal c * 0.1
         then s1\<lparr>backgroundSum := backgroundSum s1 + val,
                 backgroundCount := backgroundCount s1 + 1\<rparr>
         else s1)"

text \<open>\<^verbatim>\<open>for (let i = 0; i < data.length; i += 4)\<close>: the indices 0, 4, 8, ...\<close>

definition pixel_offsets :: "ImageData \<Rightarrow> nat list" where
  "pixel_offsets img = map (\<lambda>k. 4 * k) [0..<(length (data img) + 3) div 4]"

definition stats_loop :: "ImageData \<Rightarrow> stats_acc" where
  "stats_loop img =
     fold (stats_step img (calculateCentroid img)) (pixel_offsets img)
       \<lparr>halfMaxCount = 0, backgroundSum = 0, backgroundCount = 0\<rparr>"

text \<open>The locals \<^verbatim>\<open>bg\<close>, \<^verbatim>\<open>signal\<close> and \<^verbatim>\<open>noise\<close>.\<close>

definition stats_bg :: "ImageData \<Rightarrow> real" where
  "stats_bg img =
     (let s = stats_loop img
      in if backgroundCount s > 0 then backgroundSum s / real (backgroundCount s) else 0)"

definition stats_signal :: "ImageData \<Rightarrow> real" where
  "stats_signal img = centroidMaxVal (calculateCentroid img) - stats_bg img"

definition stats_noise :: "ImageData \<Rightarrow> real" where
  "stats_noise img = sqrt (stats_bg img + 1)"

definition estimateStats :: "ImageData \<Rightarrow> ProcessingStats" where
  "estimateStats img =
     (let c = calculateCentroid img;
          fwhm = 2 * sqrt (real (halfMaxCount (stats_loop img)) / pi)
      in \<lparr>centroid = (centroidX c, centroidY c),
          fwhmPixels = toFixed 2 fwhm,
          snr = js_toFixed 1 (js_div (stats_signal img) (stats_noise img)),
          peakIntensity = \<lfloor>centroidMaxVal c\<rfloor>,
          backgroundLevel = \<lfloor>stats_bg img\<rfloor>\<rparr>)"

section \<open>PSF3DViewer: camera state, projection and input handlers\<close>

text \<open>Multiplication and addition of JavaScript numbers.\<close>

definition js_signed_inf :: "real \<Rightarrow> jsnum" where
  "js_signed_inf s = (if s = 0 then NaN else if 0 < s then PosInfinity else NegInfinity)"

fun js_mul :: "jsnum \<Rightarrow> jsnum \<Rightarrow> jsnum" where
  "js_mul (Finite a) (Finite b) = Finite (a * b)"
| "js_mul NaN _ = NaN"
| "js_mul _ NaN = NaN"
| "js_mul (Finite a) PosInfinity = js_signed_inf a"
| "js_mul (Finite a) NegInfinity = js_signed_inf (- a)"
| "js_mul PosInfinity (Finite b) = js_signed_inf b"
| "js_mul NegInfinity (Finite b) = js_signed_inf (- b)"
| "js_mul PosInfinity PosInfinity = PosInfinity"
| "js_mul NegInfinity NegInfinity = PosInfinity"
| "js_mul PosInfinity NegInfinity = NegInfinity"
| "js_mul NegInfinity PosInfinity = NegInfinity"

fun js_add :: "jsnum \<Rightarrow> jsnum \<Rightarrow> jsnum" where
  "js_add (Finite a) (Finite b) = Finite (a + b)"
| "js_add NaN _ = NaN"
| "js_add _ NaN = NaN"
| "js_add PosInfinity NegInfinity = NaN"
| "js_add NegInfinity PosInfinity = NaN"
| "js_add PosInfinity _ = PosInfinity"
| "js_add NegInfinity _ = NegInfinity"
| "js_add _ PosInfinity = PosInfinity"
| "js_add _ NegInfinity = NegInfinity"

text \<open>
  The refs of the component: \<^verbatim>\<open>angleRef.current.x\<close> (elevation),
  \<^verbatim>\<open>angleRef.current.z\<close> (azimuth), \<^verbatim>\<open>scaleRef\<close>, \<^verbatim>\<open>isDragging\<close>,
  \<^verbatim>\<open>lastMousePosition\<close>, and the state \<^verbatim>\<open>zoomDisplay\<close>.
\<close>

record ViewerState =
  angleX :: real
  angleZ :: real
  scaleRef :: real
  isDragging :: bool
  lastMouseX :: real
  lastMouseY :: real
  zoomDisplay :: real

definition initialState :: ViewerState where
  "initialState =
     \<lparr>angleX = 0.8, angleZ = 0.5, scaleRef = 1.2, isDragging = False,
      lastMouseX = 0, lastMouseY = 0, zoomDisplay = 1.2\<rparr>"

text \<open>
  \<^verbatim>\<open>project\<close>, for a canvas of \<open>w\<close> by \<open>h\<close>. The perspective factor is a quotient and
  is not finite when \<^verbatim>\<open>500 - y2\<close> is zero; the products and sums after it carry that on.
\<close>

definition project :: "ViewerState \<Rightarrow> real \<Rightarrow> real \<Rightarrow> real \<Rightarrow> real \<Rightarrow> real \<Rightarrow> jsnum \<times> jsnum" where
  "project st w h x y z =
     (let cosX = cos (angleX st);
          sinX = sin (angleX st);
          cosZ = cos (angleZ st);
          sinZ = sin (angleZ st);
          x1 = x * cosZ - y * sinZ;
          y1 = x * sinZ + y * cosZ;
          y2 = y1 * cosX - (z * 15) * sinX;
          z2 = y1 * sinX + (z * 15) * cosX;
          perspective = js_div 400 (500 - y2);
          zoom = scaleRef st
      in (js_add (js_mul (js_mul (js_mul (Finite x1) perspective) (Finite 8)) (Finite zoom))
            (Finite (w / 2)),
          js_add (js_mul (js_mul (js_mul (Finite (- z2)) perspective) (Finite 8)) (Finite zoom))
            (Finite (h / 1.5))))"

definition handleMouseDown :: "real \<Rightarrow> real \<Rightarrow> ViewerState \<Rightarrow> ViewerState" where
  "handleMouseDown clientX clientY st =
     st\<lparr>isDragging := True, lastMouseX := clientX, lastMouseY := clientY\<rparr>"

definition handleMouseUp :: "ViewerState \<Rightarrow> ViewerState" where
  "handleMouseUp st = st\<lparr>isDragging := False\<rparr>"

definition handleMouseMove :: "real \<Rightarrow> real \<Rightarrow> ViewerState \<Rightarrow> ViewerState" where
  "handleMouseMove clientX clientY st =
     (if \<not> isDragging st then st
      else (let dx = clientX - lastMouseX st;
                dy = clientY - lastMouseY st;
                z' = angleZ st + dx * 0.01;
                x' = angleX st + dy * 0.01
            in st\<lparr>angleZ := z',
                  angleX := max 0.2 (min (pi / 2.2) x'),
                  lastMouseX := clientX, lastMouseY := clientY\<rparr>))"

definition handleWheel :: "real \<Rightarrow> ViewerState \<Rightarrow> ViewerState" where
  "handleWheel deltaY st =
     (let delta = - sgn deltaY * 0.1;
          newScale = min (max 0.5 (scaleRef st + delta)) 3.0
      in st\<lparr>scaleRef := newScale, zoomDisplay := newScale\<rparr>)"

text \<open>One animation frame: the idle rotation of \<^verbatim>\<open>animate\<close>.\<close>

definition animate :: "ViewerState \<Rightarrow> ViewerState" where
  "animate st = (if \<not> isDragging st then st\<lparr>angleZ := angleZ st + 0.003\<rparr> else st)"

text \<open>
  What can happen to a mounted viewer: the canvas's five handlers
  (\<^verbatim>\<open>onMouseLeave\<close> is \<^verbatim>\<open>handleMouseUp\<close>) and the animation frame.
\<close>

datatype event =
  MouseDown real real | MouseUp | MouseLeave | MouseMove real real | Wheel real | AnimationFrame

fun handleEvent :: "event \<Rightarrow> ViewerState \<Rightarrow> ViewerState" where
  "handleEvent (MouseDown cx cy) st = handleMouseDown cx cy st"
| "handleEvent MouseUp st = handleMouseUp st"
| "handleEvent MouseLeave st = handleMouseUp st"
| "handleEvent (MouseMove cx cy) st = handleMouseMove cx cy st"
| "handleEvent (Wheel deltaY) st = handleWheel deltaY st"
| "handleEvent AnimationFrame st = animate st"

definition runEvents :: "event list \<Rightarrow> ViewerState \<Rightarrow> ViewerState" where
  "runEvents evs st = fold handleEvent evs st"

section \<open>Predicates and sets of the statements\<close>

text \<open>Every byte of the buffer is 0.\<close>

definition blank :: "ImageData \<Rightarrow> bool" where
  "blank img \<longleftrightarrow> list_all (\<lambda>v. v = 0) (data img)"

text \<open>The bounds of the zoom and of the elevation angle.\<close>

definition inBounds :: "ViewerState \<Rightarrow> bool" where
  "inBounds st \<longleftrightarrow>
     0.5 \<le> scaleRef st \<and> scaleRef st \<le> 3.0 \<and> 0.2 \<le> angleX st \<and> angleX st \<le> pi / 2.2"

subsection \<open>The saturation check, as the specification words it\<close>

text \<open>
  The pixels of the buffer inside the square scanned around the centre: the square
  reaches from \<open>\<lfloor>c - r\<rfloor>\<close> to \<open>\<lceil>c + r\<rceil>\<close> on each axis and is clipped to the buffer.
\<close>

definition scannedRegion :: "ImageData \<Rightarrow> real \<Rightarrow> real \<Rightarrow> real \<Rightarrow> (nat \<times> nat) set" where
  "scannedRegion img centerX centerY rad =
     {(x, y). x < width img \<and> y < height img \<and>
        \<lfloor>centerX - rad\<rfloor> \<le> int x \<and> int x \<le> \<lceil>centerX + rad\<rceil> \<and>
        \<lfloor>centerY - rad\<rfloor> \<le> int y \<and> int y \<le> \<lceil>centerY + rad\<rceil>}"

text \<open>A pixel with at least one of R, G, B at 250 or more.\<close>

definition saturatedPixel :: "ImageData \<Rightarrow> nat \<Rightarrow> nat \<Rightarrow> bool" where
  "saturatedPixel img x y \<longleftrightarrow>
     250 \<le> data img ! ((y * width img + x) * 4) \<or>
     250 \<le> data img ! ((y * width img + x) * 4 + 1) \<or>
     250 \<le> data img ! ((y * width img + x) * 4 + 2)"

definition saturatedInRegion :: "ImageData \<Rightarrow> real \<Rightarrow> real \<Rightarrow> real \<Rightarrow> (nat \<times> nat) set" where
  "saturatedInRegion img centerX centerY rad =
     {(x, y). (x, y) \<in> scannedRegion img centerX centerY rad \<and> saturatedPixel img x y}"



text \<open>The three colour bytes of the pixel in column \<open>x\<close> of row \<open>y\<close>.\<close>

definition rgbAt :: "ImageData \<Rightarrow> nat \<Rightarrow> nat \<Rightarrow> 8 word \<times> 8 word \<times> 8 word" where
  "rgbAt img x y =
     (data img ! ((y * width img + x) * 4),
      data img ! ((y * width img + x) * 4 + 1),
      data img ! ((y * width img + x) * 4 + 2))"

subsection \<open>The half-maximum core, as the specification words it\<close>

text \<open>The luminosity of a pixel: the mean of its R, G and B.\<close>

definition meanRGB :: "ImageData \<Rightarrow> nat \<Rightarrow> nat \<Rightarrow> real" where
  "meanRGB img x y =
     (case rgbAt img x y of
        (r, g, b) \<Rightarrow> (real (unat r) + real (unat g) + real (unat b)) / 3)"

text \<open>The pixels whose luminosity is strictly above half of the centroid's \<open>maxVal\<close>.\<close>

definition aboveHalfMax :: "ImageData \<Rightarrow> (nat \<times> nat) set" where
  "aboveHalfMax img =
     {(x, y). x < width img \<and> y < height img \<and>
        meanRGB img x y > centroidMaxVal (calculateCentroid img) / 2}"

section \<open>Loop invariants\<close>

text \<open>
  What every iteration keeps: the peak and the mass are not negative, and each
  coordinate sum lies between 0 and the largest index times the mass.
\<close>

definition centroid_inv :: "ImageData \<Rightarrow> centroid_acc \<Rightarrow> bool" where
  "centroid_inv img s \<longleftrightarrow>
     0 \<le> maxVal s \<and> 0 \<le> totalMass s \<and>
     0 \<le> sumX s \<and> sumX s \<le> (real (width img) - 1) * totalMass s \<and>
     0 \<le> sumY s \<and> sumY s \<le> (real (height img) - 1) * totalMass s"

text \<open>Both arrays keep their length, and no bin sum is negative.\<close>

definition radial_inv :: "nat \<Rightarrow> radial_acc \<Rightarrow> bool" where
  "radial_inv n s \<longleftrightarrow>
     length (bins s) = n \<and> length (counts s) = n \<and> list_all (\<lambda>b. 0 \<le> b) (bins s)"

text \<open>What the loop body tests, on the integer loop variables.\<close>

definition counted :: "ImageData \<Rightarrow> int \<times> int \<Rightarrow> bool" where
  "counted img p \<longleftrightarrow>
     (case p of (y, x) \<Rightarrow>
        0 \<le> x \<and> x < int (width img) \<and> 0 \<le> y \<and> y < int (height img) \<and>
        saturatedPixel img (nat x) (nat y))"

section \<open>Example inputs\<close>

text \<open>One black, transparent pixel.\<close>

definition blank1x1 :: ImageData where
  "blank1x1 = \<lparr>width = 1, height = 1, data = [0, 0, 0, 0]\<rparr>"

text \<open>Two black, transparent pixels in one row.\<close>

definition blank2x1 :: ImageData where
  "blank2x1 = \<lparr>width = 2, height = 1, data = [0, 0, 0, 0, 0, 0, 0, 0]\<rparr>"

text \<open>Two pixels in one row: a black one, then a grey one of value 200.\<close>

definition twoPixels :: ImageData where
  "twoPixels = \<lparr>width = 2, height = 1, data = [0, 0, 0, 255, 200, 200, 200, 255]\<rparr>"


text \<open>Three rows of three pixels: four of them clipped, then five.\<close>

definition fourClipped :: ImageData where
  "fourClipped = \<lparr>width = 3, height = 3,
     data = [250, 0, 0, 255,   0, 255, 0, 255,   0, 0, 0, 255,
             0, 0, 251, 255,   255, 255, 255, 255,   249, 249, 249, 255,
             0, 0, 0, 255,   10, 20, 30, 255,   0, 0, 0, 255]\<rparr>"

definition fiveClipped :: ImageData where
  "fiveClipped = \<lparr>width = 3, height = 3,
     data = [250, 0, 0, 255,   0, 255, 0, 255,   0, 0, 0, 255,
             0, 0, 251, 255,   255, 255, 255, 255,   249, 250, 249, 255,
             0, 0, 0, 255,   10, 20, 30, 255,   0, 0, 0, 255]\<rparr>"

text \<open>The freshly mounted viewer after a press at the origin: a drag is under way.\<close>

definition draggingState :: ViewerState where
  "draggingState = handleMouseDown 0 0 initialState"

section \<open>Loops\<close>

lemma fold_invariant:
  assumes "P s" and "\<And>x s. x \<in> set xs \<Longrightarrow> P s \<Longrightarrow> P (f x s)"
  shows "P (fold f xs s)"
  using assms by (induction xs arbitrary: s) auto

lemma nested_fold_invariant:
  assumes "P s" and "\<And>y x s. y < h \<Longrightarrow> x < w \<Longrightarrow> P s \<Longrightarrow> P (f y x s)"
  shows "P (fold (\<lambda>y. fold (f y) [0..<w]) [0..<h] s)"
proof (rule fold_invariant [where P = P, OF assms(1)])
  fix y s assume "y \<in> set [0..<h]" and "P s"
  then show "P (fold (f y) [0..<w] s)"
    by (intro fold_invariant [where P = P]) (auto intro: assms(2))
qed

section \<open>Channels and luminosity\<close>

lemma channel_nonneg: "0 \<le> channel img i"
  unfolding channel_def by (rule of_nat_0_le_iff)

lemma channel_le_255: "channel img i \<le> 255"
proof -
  have "unat (data img ! i) < 2 ^ 8"
    using unsigned_less [of "data img ! i", where ?'a = nat] by simp
  then have "unat (data img ! i) \<le> 255" by simp
  then have "real (unat (data img ! i)) \<le> real 255" by (rule of_nat_mono)
  then show ?thesis unfolding channel_def by simp
qed

lemma intensityAt_nonneg: "0 \<le> intensityAt img idx"
  unfolding intensityAt_def
  using channel_nonneg [of img idx] channel_nonneg [of img "idx + 1"]
    channel_nonneg [of img "idx + 2"]
  by simp

lemma intensityAt_le_255: "intensityAt img idx \<le> 255"
  unfolding intensityAt_def
  using channel_le_255 [of img idx] channel_le_255 [of img "idx + 1"]
    channel_le_255 [of img "idx + 2"]
  by simp

section \<open>The centroid pass\<close>

lemma centroid_step_inv:
  assumes "centroid_inv img s" "x < width img" "y < height img"
  shows "centroid_inv img (centroid_step img y x s)"
proof -
  let ?i = "intensityAt img ((y * width img + x) * 4)"
  have i: "0 \<le> ?i" by (rule intensityAt_nonneg)
  have x: "real x * ?i \<le> (real (width img) - 1) * ?i"
    using assms(2) i by (intro mult_right_mono) auto
  have y: "real y * ?i \<le> (real (height img) - 1) * ?i"
    using assms(3) i by (intro mult_right_mono) auto
  show ?thesis
    using assms(1) i x y
    by (auto simp: centroid_inv_def centroid_step_def Let_def algebra_simps)
qed

lemma centroid_loop_inv: "centroid_inv img (centroid_loop img)"
  unfolding centroid_loop_def
proof (rule nested_fold_invariant [where P = "centroid_inv img"])
  show "centroid_inv img centroid_init"
    by (simp add: centroid_inv_def centroid_init_def)
next
  fix y x s
  assume "y < height img" "x < width img" "centroid_inv img s"
  then show "centroid_inv img (centroid_step img y x s)"
    by (simp add: centroid_step_inv)
qed

text \<open>
  C10. For a buffer of width \<open>W \<ge> 1\<close> and height \<open>H \<ge> 1\<close> the coordinates that
  \<open>calculateCentroid\<close> returns satisfy \<open>0 \<le> x < W\<close> and \<open>0 \<le> y < H\<close>: with no mass
  they are \<open>(W/2, H/2)\<close>, otherwise a weighted mean of pixel indices, which is at
  most \<open>W - 1\<close> and \<open>H - 1\<close>.
\<close>

theorem centroid_in_buffer:
  assumes "wellformed img"
  shows "0 \<le> centroidX (calculateCentroid img) \<and>
         centroidX (calculateCentroid img) < real (width img) \<and>
         0 \<le> centroidY (calculateCentroid img) \<and>
         centroidY (calculateCentroid img) < real (height img) \<and>
         (if totalMass (centroid_loop img) = 0
          then centroidX (calculateCentroid img) = real (width img) / 2 \<and>
               centroidY (calculateCentroid img) = real (height img) / 2
          else centroidX (calculateCentroid img) \<le> real (width img) - 1 \<and>
               centroidY (calculateCentroid img) \<le> real (height img) - 1)"
proof -
  let ?s = "centroid_loop img"
  have inv: "centroid_inv img ?s" by (rule centroid_loop_inv)
  have W: "0 < width img" and H: "0 < height img"
    using assms by (auto simp: wellformed_def)
  show ?thesis
  proof (cases "totalMass ?s = 0")
    case True
    then show ?thesis using W H by (simp add: calculateCentroid_def Let_def)
  next
    case False
    then have m: "0 < totalMass ?s" using inv by (simp add: centroid_inv_def)
    have "sumX ?s / totalMass ?s \<le> real (width img) - 1"
      using inv m by (simp add: centroid_inv_def pos_divide_le_eq)
    moreover have "sumY ?s / totalMass ?s \<le> real (height img) - 1"
      using inv m by (simp add: centroid_inv_def pos_divide_le_eq)
    moreover have "0 \<le> sumX ?s / totalMass ?s" "0 \<le> sumY ?s / totalMass ?s"
      using inv m by (simp_all add: centroid_inv_def)
    ultimately show ?thesis using False by (simp add: calculateCentroid_def Let_def)
  qed
qed

theorem centroid_in_buffer_witness:
  "wellformed twoPixels \<and>
   0 \<le> centroidX (calculateCentroid twoPixels) \<and>
   centroidX (calculateCentroid twoPixels) < 2 \<and>
   0 \<le> centroidY (calculateCentroid twoPixels) \<and>
   centroidY (calculateCentroid twoPixels) < 1"
proof -
  have wf: "wellformed twoPixels"
    by (simp add: wellformed_def twoPixels_def)
  have "width twoPixels = 2" "height twoPixels = 1"
    by (simp_all add: twoPixels_def)
  with wf centroid_in_buffer [OF wf] show ?thesis by simp
qed

section \<open>Reads stay inside the array\<close>

lemma pixel_index_in_range:
  assumes "wellformed img" "x < width img" "y < height img"
  shows "(y * width img + x) * 4 + 3 < length (data img)"
proof -
  have "y * width img + x < (y + 1) * width img" using assms(2) by simp
  also have "\<dots> \<le> height img * width img"
    using assms(3) by (intro mult_le_mono1) simp
  finally have lt: "y * width img + x < height img * width img" .
  have step: "n * 4 + 3 < 4 * m" if "n < m" for n m :: nat
    using that by arith
  have "length (data img) = 4 * (height img * width img)"
    using assms(1) by (simp add: wellformed_def mult.commute)
  with step [OF lt] show ?thesis by simp
qed

section \<open>Blank buffers and dark pixels\<close>

text \<open>A pixel of luminosity 0 changes nothing in the centroid pass.\<close>

lemma centroid_step_zero:
  assumes "intensityAt img ((y * width img + x) * 4) = 0" "0 \<le> maxVal s"
  shows "centroid_step img y x s = s"
  using assms by (simp add: centroid_step_def Let_def)

lemma blank_channel:
  assumes "blank img" "i < length (data img)"
  shows "channel img i = 0"
proof -
  have "data img ! i = 0"
    using assms by (simp add: blank_def list_all_length)
  then show ?thesis by (simp add: channel_def)
qed

lemma blank_intensityAt:
  assumes "blank img" "idx + 2 < length (data img)"
  shows "intensityAt img idx = 0"
  using assms by (simp add: intensityAt_def blank_channel)

lemma blank_centroid_loop:
  assumes "wellformed img" "blank img"
  shows "centroid_loop img = centroid_init"
  unfolding centroid_loop_def
proof (rule nested_fold_invariant [where P = "\<lambda>s. s = centroid_init"])
  fix y x s
  assume yx: "y < height img" "x < width img" and s: "s = centroid_init"
  have "intensityAt img ((y * width img + x) * 4) = 0"
    using pixel_index_in_range [OF assms(1) yx(2) yx(1)] assms(2)
    by (intro blank_intensityAt) simp_all
  then show "centroid_step img y x s = centroid_init"
    using s by (simp add: centroid_step_zero centroid_init_def)
qed simp

lemma blank_calculateCentroid:
  assumes "wellformed img" "blank img"
  shows "calculateCentroid img =
    \<lparr>centroidX = real (width img) / 2, centroidY = real (height img) / 2, centroidMaxVal = 0\<rparr>"
  by (simp add: calculateCentroid_def blank_centroid_loop [OF assms] centroid_init_def)

lemma set_pixel_offsets:
  assumes "wellformed img" "i \<in> set (pixel_offsets img)"
  shows "i + 3 < length (data img)"
proof -
  from assms(2) obtain k where k: "i = 4 * k" "k < (length (data img) + 3) div 4"
    by (auto simp: pixel_offsets_def)
  have "length (data img) = 4 * (width img * height img)"
    using assms(1) by (simp add: wellformed_def)
  with k show ?thesis by simp
qed

lemma blank_stats_loop:
  assumes "wellformed img" "blank img"
  shows "stats_loop img = \<lparr>halfMaxCount = 0, backgroundSum = 0, backgroundCount = 0\<rparr>"
  unfolding stats_loop_def
proof (rule fold_invariant
    [where P = "\<lambda>s. s = \<lparr>halfMaxCount = 0, backgroundSum = 0, backgroundCount = 0\<rparr>"])
  fix i s
  assume i: "i \<in> set (pixel_offsets img)"
    and s: "s = \<lparr>halfMaxCount = 0, backgroundSum = 0, backgroundCount = 0\<rparr>"
  have "intensityAt img i = 0"
    using set_pixel_offsets [OF assms(1) i] assms(2) by (intro blank_intensityAt) simp_all
  then show "stats_step img (calculateCentroid img) i s =
      \<lparr>halfMaxCount = 0, backgroundSum = 0, backgroundCount = 0\<rparr>"
    using s by (simp add: stats_step_def blank_calculateCentroid [OF assms])
qed simp

text \<open>
  C3. For a buffer whose every channel of every pixel is 0, \<open>calculateCentroid\<close>
  returns \<open>x = W/2\<close>, \<open>y = H/2\<close> and \<open>maxVal = 0\<close>, and \<open>estimateStats\<close> returns
  \<open>fwhmPixels = 0\<close> and \<open>snr = 0\<close>, a finite number like every other field.
\<close>

theorem blank_buffer_stats:
  assumes "wellformed img" "blank img"
  shows "centroidX (calculateCentroid img) = real (width img) / 2 \<and>
         centroidY (calculateCentroid img) = real (height img) / 2 \<and>
         centroidMaxVal (calculateCentroid img) = 0 \<and>
         estimateStats img =
           \<lparr>centroid = (real (width img) / 2, real (height img) / 2),
            fwhmPixels = 0, snr = Finite 0, peakIntensity = 0, backgroundLevel = 0\<rparr>"
proof -
  have bg: "stats_bg img = 0"
    by (simp add: stats_bg_def blank_stats_loop [OF assms])
  have sig: "stats_signal img = 0"
    by (simp add: stats_signal_def bg blank_calculateCentroid [OF assms])
  have noise: "stats_noise img = 1"
    by (simp add: stats_noise_def bg)
  have z: "toFixed f 0 = 0" for f
    by (simp add: toFixed_def)
  have "estimateStats img =
           \<lparr>centroid = (real (width img) / 2, real (height img) / 2),
            fwhmPixels = 0, snr = Finite 0, peakIntensity = 0, backgroundLevel = 0\<rparr>"
    by (simp add: estimateStats_def bg sig noise z js_div_def js_toFixed_def
        blank_stats_loop [OF assms] blank_calculateCentroid [OF assms])
  then show ?thesis by (simp add: blank_calculateCentroid [OF assms])
qed

theorem blank_buffer_stats_witness:
  "wellformed blank2x1 \<and> blank blank2x1 \<and>
   calculateCentroid blank2x1 = \<lparr>centroidX = 1, centroidY = 1 / 2, centroidMaxVal = 0\<rparr> \<and>
   fwhmPixels (estimateStats blank2x1) = 0 \<and> snr (estimateStats blank2x1) = Finite 0"
proof -
  have wf: "wellformed blank2x1" by (simp add: wellformed_def blank2x1_def)
  have bl: "blank blank2x1" by (simp add: blank_def blank2x1_def)
  have "width blank2x1 = 2" "height blank2x1 = 1" by (simp_all add: blank2x1_def)
  with wf bl blank_buffer_stats [OF wf bl] show ?thesis
    by (cases "calculateCentroid blank2x1") simp
qed

section \<open>One bright pixel\<close>

text \<open>The two nested loops visit the pixels row by row.\<close>

lemma fold_product:
  "fold (\<lambda>y. fold (f y) xs) ys s = fold (\<lambda>(y, x). f y x) (List.product ys xs) s"
  by (induction ys arbitrary: s) (simp_all add: fold_map comp_def)
















section \<open>A rounding to a grid\<close>





section \<open>Bounds on pi\<close>

lemma arctan_le_self_nonneg:
  fixes x :: real
  assumes "0 \<le> x"
  shows "arctan x \<le> x"
proof -
  have "(\<lambda>t. t - arctan t) 0 \<le> (\<lambda>t. t - arctan t) x"
  proof (rule DERIV_nonneg_imp_nondecreasing [OF assms])
    fix t :: real
    have "((\<lambda>t. t - arctan t) has_real_derivative 1 - inverse (1 + t\<^sup>2)) (at t)"
      by (auto intro!: derivative_eq_intros)
    moreover have "inverse (1 + t\<^sup>2) \<le> 1"
      by (simp add: inverse_le_1_iff)
    ultimately show "\<exists>y. ((\<lambda>t. t - arctan t) has_real_derivative y) (at t) \<and> 0 \<le> y"
      by (intro exI [of _ "1 - inverse (1 + t\<^sup>2)"]) simp
  qed
  then show ?thesis by simp
qed

lemma arctan_ge_cubic:
  fixes x :: real
  assumes "0 \<le> x"
  shows "x - x ^ 3 / 3 \<le> arctan x"
proof -
  let ?f = "\<lambda>t. arctan t - t + t ^ 3 / 3"
  have "?f 0 \<le> ?f x"
  proof (rule DERIV_nonneg_imp_nondecreasing [OF assms])
    fix t :: real
    have d: "(?f has_real_derivative inverse (1 + t\<^sup>2) - 1 + t\<^sup>2) (at t)"
      by (auto intro!: derivative_eq_intros)
    have "inverse (1 + t\<^sup>2) - 1 + t\<^sup>2 = t ^ 4 / (1 + t\<^sup>2)"
    proof -
      have "1 + t\<^sup>2 \<noteq> 0" by (metis add_pos_nonneg less_numeral_extra(1) less_irrefl zero_le_power2)
      then show ?thesis by (simp add: field_simps power2_eq_square power4_eq_xxxx)
    qed
    moreover have "0 \<le> t ^ 4 / (1 + t\<^sup>2)" by (simp add: add_nonneg_nonneg)
    ultimately show "\<exists>y. (?f has_real_derivative y) (at t) \<and> 0 \<le> y"
      using d by (intro exI [of _ "inverse (1 + t\<^sup>2) - 1 + t\<^sup>2"]) simp
  qed
  then show ?thesis by simp
qed

lemma arctan_le_quintic:
  fixes x :: real
  assumes "0 \<le> x"
  shows "arctan x \<le> x - x ^ 3 / 3 + x ^ 5 / 5"
proof -
  let ?f = "\<lambda>t. t - t ^ 3 / 3 + t ^ 5 / 5 - arctan t"
  have "?f 0 \<le> ?f x"
  proof (rule DERIV_nonneg_imp_nondecreasing [OF assms])
    fix t :: real
    have d: "(?f has_real_derivative 1 - t\<^sup>2 + t ^ 4 - inverse (1 + t\<^sup>2)) (at t)"
      by (auto intro!: derivative_eq_intros)
    have "1 - t\<^sup>2 + t ^ 4 - inverse (1 + t\<^sup>2) = t ^ 6 / (1 + t\<^sup>2)"
    proof -
      have "1 + t\<^sup>2 \<noteq> 0" by (metis add_pos_nonneg less_numeral_extra(1) less_irrefl zero_le_power2)
      then show ?thesis by (simp add: field_simps power2_eq_square power_numeral_reduce)
    qed
    moreover have "0 \<le> t ^ 6 / (1 + t\<^sup>2)" by (simp add: add_nonneg_nonneg)
    ultimately show "\<exists>y. (?f has_real_derivative y) (at t) \<and> 0 \<le> y"
      using d by (intro exI [of _ "1 - t\<^sup>2 + t ^ 4 - inverse (1 + t\<^sup>2)"]) simp
  qed
  then show ?thesis by simp
qed

lemma pi_bounds: "314 / 100 < pi" "pi < 316 / 100"
proof -
  have a5l: "74 / 375 \<le> arctan (1 / 5 :: real)"
    using arctan_ge_cubic [of "1 / 5"] by (simp add: power3_eq_cube)
  have a5u: "arctan (1 / 5 :: real) \<le> 9253 / 46875"
    using arctan_le_quintic [of "1 / 5"] by (simp add: power3_eq_cube power_numeral_reduce)
  have a239u: "arctan (1 / 239 :: real) \<le> 1 / 239"
    by (rule arctan_le_self_nonneg) simp
  have a239l: "0 \<le> arctan (1 / 239 :: real)" by simp
  have m: "pi = 16 * arctan (1 / 5) - 4 * arctan (1 / 239)"
    using machin by simp
  show "314 / 100 < pi" unfolding m using a5l a239u by linarith
  show "pi < 316 / 100" unfolding m using a5u a239l by linarith
qed

section \<open>The second pass of estimateStats\<close>

lemma stats_fold_halfMaxCount:
  "halfMaxCount (fold (stats_step img c) is s) =
     halfMaxCount s + length (filter (\<lambda>i. intensityAt img i > centroidMaxVal c / 2) is)"
  by (induction "is" arbitrary: s) (simp_all add: stats_step_def Let_def)

lemma length_filter_upt:
  "length (filter P [0..<n]) = card {k. k < n \<and> P k}"
proof -
  have "length (filter P [0..<n]) = card ({k. P k} \<inter> set [0..<n])"
    by (simp add: distinct_length_filter)
  also have "{k. P k} \<inter> set [0..<n] = {k. k < n \<and> P k}" by auto
  finally show ?thesis .
qed

lemma pixel_offsets_wellformed:
  assumes "wellformed img"
  shows "pixel_offsets img = map (\<lambda>k. 4 * k) [0..<width img * height img]"
proof -
  have "length (data img) = 4 * (width img * height img)"
    using assms by (simp add: wellformed_def)
  then show ?thesis by (simp add: pixel_offsets_def)
qed

lemma halfMaxCount_card_offsets:
  assumes "wellformed img"
  shows "halfMaxCount (stats_loop img) =
    card {k. k < width img * height img \<and>
             intensityAt img (4 * k) > centroidMaxVal (calculateCentroid img) / 2}"
  by (simp add: stats_loop_def stats_fold_halfMaxCount pixel_offsets_wellformed [OF assms]
      filter_map comp_def length_filter_upt)

text \<open>Row-major numbering is one-to-one between the pixels and the offsets.\<close>

lemma card_pixels_offsets:
  fixes w h :: nat
  assumes "0 < w"
  shows "card {(x, y). x < w \<and> y < h \<and> P (y * w + x)} = card {k. k < w * h \<and> P k}"
proof (rule bij_betw_same_card [where f = "\<lambda>(x, y). y * w + x"])
  show "bij_betw (\<lambda>(x, y). y * w + x) {(x, y). x < w \<and> y < h \<and> P (y * w + x)}
          {k. k < w * h \<and> P k}"
    unfolding bij_betw_def
  proof (intro conjI)
    show "inj_on (\<lambda>(x, y). y * w + x) {(x, y). x < w \<and> y < h \<and> P (y * w + x)}"
    proof (rule inj_onI, clarify)
      fix x y x' y'
      assume lt: "x < w" "x' < w" and eq: "y * w + x = y' * w + x'"
      have "(y * w + x) mod w = x" "(y' * w + x') mod w = x'" using lt by simp_all
      with eq have x: "x = x'" by simp
      have "(y * w + x) div w = y" "(y' * w + x') div w = y'" using lt by simp_all
      with eq have "y = y'" by simp
      with x show "x = x' \<and> y = y'" by simp
    qed
  next
    show "(\<lambda>(x, y). y * w + x) ` {(x, y). x < w \<and> y < h \<and> P (y * w + x)}
            = {k. k < w * h \<and> P k}"
    proof (intro equalityI subsetI)
      fix k assume "k \<in> (\<lambda>(x, y). y * w + x) ` {(x, y). x < w \<and> y < h \<and> P (y * w + x)}"
      then obtain x y where k: "k = y * w + x" and xy: "x < w" "y < h" "P (y * w + x)"
        by auto
      have "y * w + x < (y + 1) * w" using xy(1) by simp
      also have "\<dots> \<le> h * w" using xy(2) by (intro mult_le_mono1) simp
      finally have "k < w * h" using k by (simp add: mult.commute)
      with k xy(3) show "k \<in> {k. k < w * h \<and> P k}" by simp
    next
      fix k assume "k \<in> {k. k < w * h \<and> P k}"
      then have k: "k < w * h" "P k" by simp_all
      have "k mod w < w" using assms by simp
      moreover have "k div w < h" using k(1) by (simp add: less_mult_imp_div_less mult.commute)
      moreover have "k div w * w + k mod w = k" by simp
      ultimately have "(k mod w, k div w) \<in> {(x, y). x < w \<and> y < h \<and> P (y * w + x)}"
        using k(2) by simp
      moreover have "(\<lambda>(x, y). y * w + x) (k mod w, k div w) = k" by simp
      ultimately show "k \<in> (\<lambda>(x, y). y * w + x) ` {(x, y). x < w \<and> y < h \<and> P (y * w + x)}"
        by (metis (no_types, lifting) image_eqI)
    qed
  qed
qed

lemma halfMaxCount_card:
  assumes "wellformed img"
  shows "halfMaxCount (stats_loop img) =
    card {(x, y). x < width img \<and> y < height img \<and>
             pixelIntensity img x y > centroidMaxVal (calculateCentroid img) / 2}"
proof -
  have W: "0 < width img" using assms by (simp add: wellformed_def)
  have "card {(x, y). x < width img \<and> y < height img \<and>
             pixelIntensity img x y > centroidMaxVal (calculateCentroid img) / 2}
      = card {(x, y). x < width img \<and> y < height img \<and>
             intensityAt img (4 * (y * width img + x)) > centroidMaxVal (calculateCentroid img) / 2}"
    by (simp add: pixelIntensity_def mult.commute)
  also have "\<dots> = card {k. k < width img * height img \<and>
             intensityAt img (4 * k) > centroidMaxVal (calculateCentroid img) / 2}"
    by (rule card_pixels_offsets [OF W, where P = "\<lambda>k. intensityAt img (4 * k) > centroidMaxVal (calculateCentroid img) / 2"])
  finally show ?thesis by (simp add: halfMaxCount_card_offsets [OF assms])
qed

lemma toFixed_nonneg: "0 \<le> v \<Longrightarrow> 0 \<le> toFixed f v"
  by (simp add: toFixed_def)

lemma meanRGB_pixelIntensity: "meanRGB img x y = pixelIntensity img x y"
  by (simp add: meanRGB_def rgbAt_def pixelIntensity_def intensityAt_def channel_def
      del: of_nat_unat)

lemma halfMaxCount_aboveHalfMax:
  assumes "wellformed img"
  shows "halfMaxCount (stats_loop img) = card (aboveHalfMax img)"
  by (simp add: halfMaxCount_card [OF assms] aboveHalfMax_def meanRGB_pixelIntensity)

lemma halfMaxCount_le_pixels:
  assumes "wellformed img"
  shows "halfMaxCount (stats_loop img) \<le> width img * height img"
proof -
  have "halfMaxCount (stats_loop img) \<le> length (pixel_offsets img)"
    by (simp add: stats_loop_def stats_fold_halfMaxCount)
  then show ?thesis by (simp add: pixel_offsets_wellformed [OF assms])
qed

text \<open>Below \<open>10\<^sup>2\<^sup>1\<close> a number that is not negative is rounded to the nearest hundredth.\<close>

lemma toFixed_2_hundredths:
  assumes "0 \<le> v" "v < 10 ^ 21"
  shows "toFixed 2 v = real_of_int \<lfloor>v * 100 + 1 / 2\<rfloor> / 100"
  using assms by (simp add: toFixed_def)

lemma hundredths_near:
  fixes v :: real
  shows "v - 1 / 200 < real_of_int \<lfloor>v * 100 + 1 / 2\<rfloor> / 100"
    and "real_of_int \<lfloor>v * 100 + 1 / 2\<rfloor> / 100 \<le> v + 1 / 200"
proof -
  define k where "k = real_of_int \<lfloor>v * 100 + 1 / 2\<rfloor>"
  have le: "k \<le> v * 100 + 1 / 2" and lt: "v * 100 + 1 / 2 < k + 1"
    unfolding k_def by linarith+
  have "v - 1 / 200 < k / 100" using lt by linarith
  then show "v - 1 / 200 < real_of_int \<lfloor>v * 100 + 1 / 2\<rfloor> / 100"
    unfolding k_def .
  have "k / 100 \<le> v + 1 / 200" using le by linarith
  then show "real_of_int \<lfloor>v * 100 + 1 / 2\<rfloor> / 100 \<le> v + 1 / 200"
    unfolding k_def .
qed

lemma fwhm_value_small:
  assumes "n \<le> 2 ^ 51"
  shows "2 * sqrt (real n / pi) < 10 ^ 21"
proof -
  have "1 \<le> pi" using pi_ge_two by simp
  then have "real n / pi \<le> real n / 1"
    by (intro divide_left_mono) simp_all
  also have "real n / 1 \<le> real ((2::nat) ^ 51)"
    using assms by (simp del: of_nat_power of_nat_numeral)
  also have "real ((2::nat) ^ 51) \<le> (2 ^ 26)\<^sup>2" by simp
  finally have "sqrt (real n / pi) \<le> 2 ^ 26"
    by (intro real_le_lsqrt) simp_all
  then show ?thesis by simp
qed

text \<open>
  C7. \<open>estimateStats\<close> returns as \<open>fwhmPixels\<close> the value \<open>2 * sqrt (count / pi)\<close>
  rounded to two decimals: the nearest hundredth, within \<open>1/200\<close> of the value, a
  tie going up. Here \<open>count\<close> is the number of pixels whose mean of R, G and B is
  strictly above half of the centroid's \<open>maxVal\<close>. So \<open>fwhmPixels\<close> is never negative.
  The array is no longer than \<open>2\<^sup>5\<^sup>3\<close>, as every typed array is.
\<close>

theorem fwhm_from_half_max_count:
  assumes "wellformed img" "length (data img) \<le> 2 ^ 53"
  shows "fwhmPixels (estimateStats img) =
           real_of_int \<lfloor>2 * sqrt (real (card (aboveHalfMax img)) / pi) * 100 + 1 / 2\<rfloor> / 100 \<and>
         2 * sqrt (real (card (aboveHalfMax img)) / pi) - 1 / 200
           < fwhmPixels (estimateStats img) \<and>
         fwhmPixels (estimateStats img)
           \<le> 2 * sqrt (real (card (aboveHalfMax img)) / pi) + 1 / 200 \<and>
         0 \<le> fwhmPixels (estimateStats img)"
proof -
  define n where "n = halfMaxCount (stats_loop img)"
  define v where "v = 2 * sqrt (real n / pi)"
  have card: "card (aboveHalfMax img) = n"
    by (simp add: n_def halfMaxCount_aboveHalfMax [OF assms(1)])
  have "length (data img) = 4 * (width img * height img)"
    using assms(1) by (simp add: wellformed_def)
  with assms(2) have "width img * height img \<le> 2 ^ 51"
    by (simp add: mult.commute)
  then have "n \<le> 2 ^ 51"
    using halfMaxCount_le_pixels [OF assms(1)] by (simp add: n_def)
  then have small: "v < 10 ^ 21" unfolding v_def by (rule fwhm_value_small)
  have nonneg: "0 \<le> v" by (simp add: v_def)
  have "fwhmPixels (estimateStats img) = toFixed 2 v"
    by (simp add: estimateStats_def Let_def v_def n_def)
  then have eq: "fwhmPixels (estimateStats img) = real_of_int \<lfloor>v * 100 + 1 / 2\<rfloor> / 100"
    by (simp only: toFixed_2_hundredths [OF nonneg small])
  have near: "v - 1 / 200 < fwhmPixels (estimateStats img)"
    "fwhmPixels (estimateStats img) \<le> v + 1 / 200"
    unfolding eq by (rule hundredths_near)+
  have "0 \<le> real_of_int \<lfloor>v * 100 + 1 / 2\<rfloor> / 100"
    using nonneg by simp
  then have pos: "0 \<le> fwhmPixels (estimateStats img)" unfolding eq .
  show ?thesis
    unfolding card using eq near pos unfolding v_def by blast
qed

section \<open>The two-pixel example, evaluated\<close>

lemma twoPixels_intensity:
  "pixelIntensity twoPixels 0 0 = 0" "pixelIntensity twoPixels 1 0 = 200"
  "pixelIntensity twoPixels (Suc 0) 0 = 200"
  by (simp_all add: pixelIntensity_def intensityAt_def channel_def twoPixels_def)

lemma twoPixels_centroid:
  "calculateCentroid twoPixels = \<lparr>centroidX = 1, centroidY = 0, centroidMaxVal = 200\<rparr>"
proof -
  have "[0..<width twoPixels] = [0, 1]" "[0..<height twoPixels] = [0]"
    by (simp_all add: twoPixels_def upt_rec)
  moreover have "intensityAt twoPixels 0 = 0" "intensityAt twoPixels 4 = 200"
    by (simp_all add: intensityAt_def channel_def twoPixels_def)
  moreover have "width twoPixels = 2" by (simp add: twoPixels_def)
  ultimately show ?thesis
    by (simp add: calculateCentroid_def centroid_loop_def centroid_step_def centroid_init_def
        Let_def)
qed

lemma twoPixels_aboveHalfMax: "aboveHalfMax twoPixels = {(1, 0)}"
proof -
  have wh: "width twoPixels = 2" "height twoPixels = 1"
    by (simp_all add: twoPixels_def)
  have "(x, y) \<in> aboveHalfMax twoPixels \<longleftrightarrow> (x, y) = (1, 0)" for x y
  proof -
    have "x < 2 \<and> y < 1 \<longleftrightarrow> (x = 0 \<or> x = 1) \<and> y = 0" by auto
    then show ?thesis
      by (auto simp: aboveHalfMax_def meanRGB_pixelIntensity wh twoPixels_centroid
          twoPixels_intensity)
  qed
  then show ?thesis by auto
qed

text \<open>\<open>2 / sqrt pi\<close> is 1.128..., which rounds to 1.13.\<close>

lemma fwhm_of_one_pixel: "\<lfloor>2 * sqrt (1 / pi) * 100 + 1 / 2\<rfloor> = 113"
proof -
  have "(9 / 16)\<^sup>2 \<le> 1 / pi"
    using pi_bounds(2) by (simp add: power2_eq_square field_simps)
  then have lo: "9 / 16 \<le> sqrt (1 / pi)" by (rule real_le_rsqrt)
  have "1 / pi < (227 / 400)\<^sup>2"
    using pi_bounds(1) by (simp add: power2_eq_square field_simps)
  then have hi: "sqrt (1 / pi) < 227 / 400" by (intro real_less_lsqrt) simp_all
  show ?thesis using lo hi by (simp add: floor_eq_iff)
qed

theorem fwhm_from_half_max_count_witness:
  "wellformed twoPixels \<and> length (data twoPixels) \<le> 2 ^ 53 \<and>
   card (aboveHalfMax twoPixels) = 1 \<and>
   fwhmPixels (estimateStats twoPixels) = 113 / 100 \<and>
   2 * sqrt (1 / pi) - 1 / 200 < fwhmPixels (estimateStats twoPixels) \<and>
   fwhmPixels (estimateStats twoPixels) \<le> 2 * sqrt (1 / pi) + 1 / 200"
proof -
  have wf: "wellformed twoPixels"
    by (simp add: wellformed_def twoPixels_def)
  have len: "length (data twoPixels) \<le> 2 ^ 53"
    by (simp add: twoPixels_def)
  have card: "card (aboveHalfMax twoPixels) = 1"
    by (simp add: twoPixels_aboveHalfMax)
  note inst = fwhm_from_half_max_count [OF wf len, unfolded card]
  have "fwhmPixels (estimateStats twoPixels) = 113 / 100"
    using inst fwhm_of_one_pixel by simp
  with wf len card inst show ?thesis by simp
qed

section \<open>Background and noise\<close>

lemma stats_fold_background:
  assumes "0 \<le> backgroundSum s"
  shows "0 \<le> backgroundSum (fold (stats_step img c) is s)"
proof (rule fold_invariant [where P = "\<lambda>s. 0 \<le> backgroundSum s", OF assms])
  fix i s
  assume "0 \<le> backgroundSum (s :: stats_acc)"
  then show "0 \<le> backgroundSum (stats_step img c i s)"
    using intensityAt_nonneg [of img i] by (simp add: stats_step_def Let_def)
qed

lemma stats_bg_nonneg: "0 \<le> stats_bg img"
proof -
  have "0 \<le> backgroundSum (stats_loop img)"
    unfolding stats_loop_def by (rule stats_fold_background) simp
  then show ?thesis by (simp add: stats_bg_def Let_def)
qed

text \<open>
  C8. In \<open>estimateStats\<close> the background is not negative, the noise is
  \<open>sqrt (background + 1)\<close> and so at least 1, the division of the signal by the
  noise is not a division by zero, and the \<open>snr\<close> returned is a finite number.
\<close>

theorem snr_finite:
  assumes "wellformed img"
  shows "0 \<le> stats_bg img \<and>
         stats_noise img = sqrt (stats_bg img + 1) \<and>
         1 \<le> stats_noise img \<and>
         snr (estimateStats img) = Finite (toFixed 1 (stats_signal img / stats_noise img))"
proof -
  have bg: "0 \<le> stats_bg img" by (rule stats_bg_nonneg)
  then have "sqrt 1 \<le> sqrt (stats_bg img + 1)"
    by (intro real_sqrt_le_mono) simp
  then have noise: "1 \<le> stats_noise img" by (simp add: stats_noise_def)
  then have "stats_noise img \<noteq> 0" by simp
  then have "snr (estimateStats img) = Finite (toFixed 1 (stats_signal img / stats_noise img))"
    by (simp add: estimateStats_def Let_def js_div_def js_toFixed_def)
  with bg noise show ?thesis by (simp add: stats_noise_def)
qed

lemma twoPixels_stats_loop:
  "stats_loop twoPixels = \<lparr>halfMaxCount = 1, backgroundSum = 0, backgroundCount = 1\<rparr>"
proof -
  have "pixel_offsets twoPixels = [0, 4]"
    by (simp add: pixel_offsets_def twoPixels_def upt_rec)
  moreover have "intensityAt twoPixels 0 = 0" "intensityAt twoPixels 4 = 200"
    by (simp_all add: intensityAt_def channel_def twoPixels_def)
  ultimately show ?thesis
    by (simp add: stats_loop_def stats_step_def Let_def twoPixels_centroid)
qed

theorem snr_finite_witness:
  "wellformed twoPixels \<and> stats_bg twoPixels = 0 \<and> stats_noise twoPixels = 1 \<and>
   snr (estimateStats twoPixels) = Finite 200"
proof -
  have wf: "wellformed twoPixels"
    by (simp add: wellformed_def twoPixels_def)
  have bg: "stats_bg twoPixels = 0"
    by (simp add: stats_bg_def twoPixels_stats_loop)
  have sig: "stats_signal twoPixels = 200"
    by (simp add: stats_signal_def bg twoPixels_centroid)
  have "toFixed 1 200 = 200" by (simp add: toFixed_def)
  with wf bg sig snr_finite [OF wf] show ?thesis by simp
qed

section \<open>The camera stays inside its bounds\<close>

lemma elevation_bounds_ordered: "(0.2 :: real) \<le> pi / 2.2"
  using pi_ge_two by simp

lemma handleWheel_inBounds: "inBounds st \<Longrightarrow> inBounds (handleWheel deltaY st)"
  by (simp add: inBounds_def handleWheel_def Let_def)

lemma clamp_bounds:
  fixes lo hi v :: real
  assumes "lo \<le> hi"
  shows "lo \<le> max lo (min hi v)" "max lo (min hi v) \<le> hi"
    "hi < v \<Longrightarrow> max lo (min hi v) = hi" "v < lo \<Longrightarrow> max lo (min hi v) = lo"
  using assms by auto

lemma handleMouseMove_angleX:
  "angleX (handleMouseMove cx cy st) =
     (if isDragging st
      then max 0.2 (min (pi / 2.2) (angleX st + (cy - lastMouseY st) * 0.01))
      else angleX st)"
  by (simp add: handleMouseMove_def Let_def del: max_less_iff_conj min_less_iff_conj)

lemma handleMouseMove_scaleRef: "scaleRef (handleMouseMove cx cy st) = scaleRef st"
  by (simp add: handleMouseMove_def Let_def)

lemma handleMouseMove_inBounds:
  assumes "inBounds st"
  shows "inBounds (handleMouseMove cx cy st)"
  unfolding inBounds_def handleMouseMove_angleX handleMouseMove_scaleRef
  using assms clamp_bounds(1,2) [OF elevation_bounds_ordered]
  by (simp add: inBounds_def del: le_divide_eq_numeral1 divide_le_eq_numeral1)

lemma handleEvent_inBounds: "inBounds st \<Longrightarrow> inBounds (handleEvent e st)"
proof (cases e)
  case (Wheel deltaY)
  assume "inBounds st"
  then show ?thesis using Wheel by (simp add: handleWheel_inBounds)
next
  case (MouseMove cx cy)
  assume "inBounds st"
  then show ?thesis using MouseMove by (simp add: handleMouseMove_inBounds)
qed (simp_all add: inBounds_def handleMouseDown_def handleMouseUp_def animate_def)

lemma runEvents_inBounds: "inBounds st \<Longrightarrow> inBounds (runEvents evs st)"
  unfolding runEvents_def
  by (rule fold_invariant [where P = inBounds]) (simp_all add: handleEvent_inBounds)

text \<open>
  C6. From a zoom in \<open>[0.5, 3.0]\<close> and an elevation in \<open>[0.2, pi/2.2]\<close>, any finite
  sequence of wheel, pointer and frame events leaves the zoom in \<open>[0.5, 3.0]\<close> and
  the elevation in \<open>[0.2, pi/2.2]\<close>; a wheel step that would pass a zoom bound, and
  a drag move that would pass an elevation bound, leave the value at that bound.
\<close>

theorem zoom_elevation_clamped:
  assumes "inBounds st"
  shows "inBounds (runEvents evs st) \<and>
    (3.0 < scaleRef st - sgn deltaY * 0.1 \<longrightarrow> scaleRef (handleWheel deltaY st) = 3.0) \<and>
    (scaleRef st - sgn deltaY * 0.1 < 0.5 \<longrightarrow> scaleRef (handleWheel deltaY st) = 0.5) \<and>
    (isDragging st \<and> pi / 2.2 < angleX st + (cy - lastMouseY st) * 0.01 \<longrightarrow>
       angleX (handleMouseMove cx cy st) = pi / 2.2) \<and>
    (isDragging st \<and> angleX st + (cy - lastMouseY st) * 0.01 < 0.2 \<longrightarrow>
       angleX (handleMouseMove cx cy st) = 0.2)"
proof (intro conjI impI)
  show "inBounds (runEvents evs st)" using assms by (rule runEvents_inBounds)
next
  assume "3.0 < scaleRef st - sgn deltaY * 0.1"
  then show "scaleRef (handleWheel deltaY st) = 3.0"
    by (simp add: handleWheel_def Let_def)
next
  assume "scaleRef st - sgn deltaY * 0.1 < 0.5"
  then show "scaleRef (handleWheel deltaY st) = 0.5"
    by (simp add: handleWheel_def Let_def)
next
  assume "isDragging st \<and> pi / 2.2 < angleX st + (cy - lastMouseY st) * 0.01"
  then show "angleX (handleMouseMove cx cy st) = pi / 2.2"
    unfolding handleMouseMove_angleX
    using clamp_bounds(3) [OF elevation_bounds_ordered] by presburger
next
  assume "isDragging st \<and> angleX st + (cy - lastMouseY st) * 0.01 < 0.2"
  then show "angleX (handleMouseMove cx cy st) = 0.2"
    unfolding handleMouseMove_angleX
    using clamp_bounds(4) [OF elevation_bounds_ordered] by presburger
qed

theorem zoom_elevation_clamped_witness:
  "inBounds initialState \<and> inBounds draggingState \<and>
   inBounds (runEvents [Wheel (-120), MouseDown 10 10, MouseMove 15 900, MouseUp, AnimationFrame]
      initialState) \<and>
   scaleRef (handleWheel (-120) (initialState\<lparr>scaleRef := 3.0\<rparr>)) = 3.0 \<and>
   scaleRef (handleWheel 120 (initialState\<lparr>scaleRef := 0.5\<rparr>)) = 0.5 \<and>
   angleX (handleMouseMove 0 900 draggingState) = pi / 2.2 \<and>
   angleX (handleMouseMove 0 (-900) draggingState) = 0.2"
proof -
  have b0: "inBounds initialState"
    using pi_ge_two by (simp add: inBounds_def initialState_def)
  have b1: "inBounds draggingState"
    using pi_ge_two by (simp add: inBounds_def draggingState_def handleMouseDown_def initialState_def)
  have b2: "inBounds (initialState\<lparr>scaleRef := 3.0\<rparr>)"
    using pi_ge_two by (simp add: inBounds_def initialState_def)
  have b3: "inBounds (initialState\<lparr>scaleRef := 0.5\<rparr>)"
    using pi_ge_two by (simp add: inBounds_def initialState_def)
  have d: "isDragging draggingState" "angleX draggingState = 0.8" "lastMouseY draggingState = 0"
    by (simp_all add: draggingState_def handleMouseDown_def initialState_def)
  have up: "pi / 2.2 < angleX draggingState + (900 - lastMouseY draggingState) * 0.01"
    using pi_less_4 by (simp add: d)
  have down: "angleX draggingState + (- 900 - lastMouseY draggingState) * 0.01 < 0.2"
    by (simp add: d)
  note run = zoom_elevation_clamped [OF b0,
      of "[Wheel (-120), MouseDown 10 10, MouseMove 15 900, MouseUp, AnimationFrame]"]
  note top = zoom_elevation_clamped [OF b2, of _ "-120"]
  note bottom = zoom_elevation_clamped [OF b3, of _ 120]
  note tilt_up = zoom_elevation_clamped [OF b1, of _ _ 900 0]
  note tilt_down = zoom_elevation_clamped [OF b1, of _ _ "-900" 0]
  have "scaleRef (handleWheel (-120) (initialState\<lparr>scaleRef := 3.0\<rparr>)) = 3.0"
    using top by (simp add: initialState_def)
  moreover have "scaleRef (handleWheel 120 (initialState\<lparr>scaleRef := 0.5\<rparr>)) = 0.5"
    using bottom by (simp add: initialState_def)
  moreover have "angleX (handleMouseMove 0 900 draggingState) = pi / 2.2"
    using tilt_up d(1) up by blast
  moreover have "angleX (handleMouseMove 0 (-900) draggingState) = 0.2"
    using tilt_down d(1) down by blast
  ultimately show ?thesis using b0 b1 run by blast
qed

section \<open>The projection\<close>

text \<open>
  C9. For every point \<open>(x, y, z)\<close>, elevation and zoom, \<open>project\<close> at azimuth
  \<open>a + 2 * pi\<close> gives the same screen coordinates as at azimuth \<open>a\<close>, exactly over
  the reals.
\<close>

theorem project_azimuth_periodic:
  "project (st\<lparr>angleZ := angleZ st + 2 * pi\<rparr>) w h x y z = project st w h x y z"
  by (simp add: project_def)

section \<open>The saturation count\<close>

lemma saturation_step_counted:
  "saturation_step img y x n = (if counted img (y, x) then n + 1 else n)"
proof (cases "0 \<le> x \<and> x < int (width img) \<and> 0 \<le> y \<and> y < int (height img)")
  case True
  then have "nat ((y * int (width img) + x) * 4) = (nat y * width img + nat x) * 4"
    by (simp add: nat_mult_distrib nat_add_distrib)
  then show ?thesis
    using True by (simp add: saturation_step_def counted_def saturatedPixel_def Let_def)
next
  case False
  then show ?thesis by (auto simp: saturation_step_def counted_def)
qed

lemma saturation_fold_count:
  "fold (\<lambda>(y, x). saturation_step img y x) ps n = n + length (filter (counted img) ps)"
  by (induction ps arbitrary: n) (auto simp: saturation_step_counted)

lemma saturation_loop_card_int:
  "saturation_loop img cX cY r =
     card {p. counted img p \<and>
       p \<in> {\<lfloor>cY - r\<rfloor>..\<lceil>cY + r\<rceil>} \<times> {\<lfloor>cX - r\<rfloor>..\<lceil>cX + r\<rceil>}}"
proof -
  let ?ps = "List.product [\<lfloor>cY - r\<rfloor>..\<lceil>cY + r\<rceil>] [\<lfloor>cX - r\<rfloor>..\<lceil>cX + r\<rceil>]"
  have "saturation_loop img cX cY r = length (filter (counted img) ?ps)"
    by (simp add: saturation_loop_def fold_product saturation_fold_count)
  also have "\<dots> = card ({p. counted img p} \<inter> set ?ps)"
    by (simp add: distinct_length_filter distinct_product)
  also have "{p. counted img p} \<inter> set ?ps =
      {p. counted img p \<and> p \<in> {\<lfloor>cY - r\<rfloor>..\<lceil>cY + r\<rceil>} \<times> {\<lfloor>cX - r\<rfloor>..\<lceil>cX + r\<rceil>}}"
    by auto
  finally show ?thesis .
qed

lemma saturatedInRegion_image:
  "(\<lambda>(x, y). (int y, int x)) ` saturatedInRegion img cX cY r =
     {p. counted img p \<and> p \<in> {\<lfloor>cY - r\<rfloor>..\<lceil>cY + r\<rceil>} \<times> {\<lfloor>cX - r\<rfloor>..\<lceil>cX + r\<rceil>}}"
proof (intro equalityI subsetI)
  fix p assume "p \<in> (\<lambda>(x, y). (int y, int x)) ` saturatedInRegion img cX cY r"
  then show "p \<in> {p. counted img p \<and>
      p \<in> {\<lfloor>cY - r\<rfloor>..\<lceil>cY + r\<rceil>} \<times> {\<lfloor>cX - r\<rfloor>..\<lceil>cX + r\<rceil>}}"
    by (auto simp: saturatedInRegion_def scannedRegion_def counted_def)
next
  fix p assume p: "p \<in> {p. counted img p \<and>
      p \<in> {\<lfloor>cY - r\<rfloor>..\<lceil>cY + r\<rceil>} \<times> {\<lfloor>cX - r\<rfloor>..\<lceil>cX + r\<rceil>}}"
  obtain y x where yx: "p = (y, x)" by (cases p)
  from p yx have "(nat x, nat y) \<in> saturatedInRegion img cX cY r"
    by (auto simp: saturatedInRegion_def scannedRegion_def counted_def)
  moreover from p yx have "(\<lambda>(x, y). (int y, int x)) (nat x, nat y) = p"
    by (auto simp: counted_def)
  ultimately show "p \<in> (\<lambda>(x, y). (int y, int x)) ` saturatedInRegion img cX cY r"
    by (metis (no_types, lifting) image_eqI)
qed

lemma saturation_loop_card:
  "saturation_loop img cX cY r = card (saturatedInRegion img cX cY r)"
proof -
  have "inj_on (\<lambda>(x, y). (int y, int x)) (saturatedInRegion img cX cY r)"
    by (auto simp: inj_on_def)
  then have "card ((\<lambda>(x, y). (int y, int x)) ` saturatedInRegion img cX cY r) =
      card (saturatedInRegion img cX cY r)"
    by (rule card_image)
  then show ?thesis
    by (simp add: saturation_loop_card_int saturatedInRegion_image)
qed

text \<open>
  C4. \<open>checkSaturation\<close> counts the pixels of the scanned centre region (the square
  of half-width \<open>radius\<close> around the centre, clipped to the buffer) that have a channel
  at 250 or more. It returns false when there are exactly 4 of them and true when
  there are 5 or more: it returns true exactly when the count is above 4.
\<close>

theorem saturation_boundary:
  assumes "wellformed img"
  shows "saturation_loop img centerX centerY rad = card (saturatedInRegion img centerX centerY rad) \<and>
    (checkSaturation img centerX centerY rad \<longleftrightarrow>
       4 < card (saturatedInRegion img centerX centerY rad)) \<and>
    (card (saturatedInRegion img centerX centerY rad) = 4 \<longrightarrow>
       \<not> checkSaturation img centerX centerY rad) \<and>
    (5 \<le> card (saturatedInRegion img centerX centerY rad) \<longrightarrow>
       checkSaturation img centerX centerY rad)"
  by (simp add: checkSaturation_def saturation_loop_card)

lemma upto_0_2: "[0..2] = [0, 1, 2 :: int]"
  by (simp add: upto.simps)

lemma fourClipped_count: "saturation_loop fourClipped 1 1 1 = 4"
  by (simp add: saturation_loop_def upto_0_2 saturation_step_def fourClipped_def Let_def)

lemma fiveClipped_count: "saturation_loop fiveClipped 1 1 1 = 5"
  by (simp add: saturation_loop_def upto_0_2 saturation_step_def fiveClipped_def Let_def)

theorem saturation_boundary_witness:
  "wellformed fourClipped \<and> wellformed fiveClipped \<and>
   card (saturatedInRegion fourClipped 1 1 1) = 4 \<and> \<not> checkSaturation fourClipped 1 1 1 \<and>
   card (saturatedInRegion fiveClipped 1 1 1) = 5 \<and> checkSaturation fiveClipped 1 1 1"
proof -
  have wf4: "wellformed fourClipped" by (simp add: wellformed_def fourClipped_def)
  have wf5: "wellformed fiveClipped" by (simp add: wellformed_def fiveClipped_def)
  note four = saturation_boundary [OF wf4, of 1 1 1]
  note five = saturation_boundary [OF wf5, of 1 1 1]
  have c4: "card (saturatedInRegion fourClipped 1 1 1) = 4"
    using four fourClipped_count by simp
  have c5: "card (saturatedInRegion fiveClipped 1 1 1) = 5"
    using five fiveClipped_count by simp
  from c4 four have "\<not> checkSaturation fourClipped 1 1 1" by blast
  moreover from c5 five have "checkSaturation fiveClipped 1 1 1" by simp
  ultimately show ?thesis using wf4 wf5 c4 c5 by blast
qed

section \<open>The radial profile\<close>

lemma radial_profile_length:
  "length (calculateRadialProfile img centerX centerY maxRadius) = maxRadius"
  by (simp add: calculateRadialProfile_def Let_def)

lemma radial_profile_radii:
  "map radius (calculateRadialProfile img centerX centerY maxRadius) = [0..<maxRadius]"
  by (simp add: calculateRadialProfile_def Let_def comp_def)

lemma radial_step_inv:
  assumes "radial_inv n s"
  shows "radial_inv n (radial_step img cx cy m y x s)"
proof -
  have "list_all (\<lambda>b. 0 \<le> b) ((bins s)[k := bins s ! k + intensityAt img i])" for k i
  proof (cases "k < length (bins s)")
    case True
    then have "0 \<le> bins s ! k" using assms by (simp add: radial_inv_def list_all_length)
    then have "0 \<le> bins s ! k + intensityAt img i"
      using intensityAt_nonneg [of img i] by simp
    with True show ?thesis
      using assms by (auto simp: radial_inv_def list_all_length nth_list_update)
  next
    case False
    then have "(bins s)[k := bins s ! k + intensityAt img i] = bins s"
      by (intro list_update_beyond) simp
    then show ?thesis using assms by (simp add: radial_inv_def)
  qed
  then show ?thesis
    using assms by (simp add: radial_step_def radial_inv_def Let_def)
qed

lemma radial_loop_inv: "radial_inv maxRadius (radial_loop img cx cy maxRadius)"
  unfolding radial_loop_def
proof (rule nested_fold_invariant [where P = "radial_inv maxRadius"])
  show "radial_inv maxRadius \<lparr>bins = replicate maxRadius 0, counts = replicate maxRadius 0\<rparr>"
    by (simp add: radial_inv_def list_all_length)
next
  fix y x s assume "radial_inv maxRadius s"
  then show "radial_inv maxRadius (radial_step img cx cy maxRadius y x s)"
    by (rule radial_step_inv)
qed

text \<open>
  With a positive reference peak every entry is a finite number that is not negative,
  and an empty bin reports 0.
\<close>

lemma radial_profile_positive_peak:
  assumes "0 < radial_peak (radial_loop img cx cy maxRadius)" "i < maxRadius"
  shows "\<exists>v. intensity (calculateRadialProfile img cx cy maxRadius ! i) = Finite v \<and> 0 \<le> v \<and>
           (counts (radial_loop img cx cy maxRadius) ! i = 0 \<longrightarrow> v = 0)"
proof -
  let ?s = "radial_loop img cx cy maxRadius"
  have "radial_inv maxRadius ?s" by (rule radial_loop_inv)
  then have "0 \<le> bins ?s ! i"
    using assms(2) by (simp add: radial_inv_def list_all_length)
  then show ?thesis
    using assms by (simp add: calculateRadialProfile_def Let_def js_div_def)
qed

section \<open>A black centre bin\<close>

lemma sqrt_half_floor: "\<lfloor>sqrt (1 / 2)\<rfloor> = 0"
proof -
  have "0 \<le> sqrt (1 / 2)" by simp
  moreover have "sqrt (1 / 2) < 1" by simp
  ultimately show ?thesis by (simp add: floor_eq_iff)
qed

lemma blank1x1_centroid:
  "calculateCentroid blank1x1 = \<lparr>centroidX = 1 / 2, centroidY = 1 / 2, centroidMaxVal = 0\<rparr>"
proof -
  have "wellformed blank1x1" "blank blank1x1"
    by (simp_all add: wellformed_def blank_def blank1x1_def)
  then have "calculateCentroid blank1x1 =
      \<lparr>centroidX = real (width blank1x1) / 2, centroidY = real (height blank1x1) / 2,
       centroidMaxVal = 0\<rparr>"
    by (rule blank_calculateCentroid)
  then show ?thesis by (simp add: blank1x1_def)
qed

lemma blank1x1_radial_loop:
  "radial_loop blank1x1 (1 / 2) (1 / 2) 2 = \<lparr>bins = [0, 0], counts = [1, 0]\<rparr>"
proof -
  have far: "sqrt (1 / 2) < 2"
    by (rule less_trans [where y = 1]) simp_all
  have "intensityAt blank1x1 0 = 0"
    by (simp add: intensityAt_def channel_def blank1x1_def)
  moreover have "replicate 2 (0::real) = [0, 0]" "replicate 2 (0::nat) = [0, 0]"
    by (simp_all add: numeral_2_eq_2)
  moreover have "width blank1x1 = 1" "height blank1x1 = 1"
    by (simp_all add: blank1x1_def)
  ultimately show ?thesis
    using far by (simp add: radial_loop_def radial_step_def Let_def sqrt_half_floor)
qed

text \<open>
  C2. The profile has \<open>R\<close> entries with radii \<open>0, ..., R - 1\<close> in order (the two
  lemmas on its length and radii above), and its intensities are meant to be
  numbers \<open>\<ge> 0\<close>, with 0 for a bin without pixels. That fails when the centre bin
  holds only black pixels: the reference peak is then 0 and the division gives
  \<open>NaN\<close>. Here the buffer is one black pixel, the centre is its centroid and
  \<open>R = 2\<close>: bin 0 holds the pixel, bin 1 is empty, and both report \<open>NaN\<close>.
\<close>

theorem radial_profile_black_centre:
  "wellformed blank1x1 \<and>
   centroidX (calculateCentroid blank1x1) = 1 / 2 \<and>
   centroidY (calculateCentroid blank1x1) = 1 / 2 \<and>
   map intensity (calculateRadialProfile blank1x1 (1 / 2) (1 / 2) 2) = [NaN, NaN]"
proof -
  have "[0..<2] = [0, 1]" by (simp add: upt_rec)
  then have "map intensity (calculateRadialProfile blank1x1 (1 / 2) (1 / 2) 2) = [NaN, NaN]"
    by (simp add: calculateRadialProfile_def blank1x1_radial_loop radial_peak_def js_div_def)
  then show ?thesis
    by (simp add: blank1x1_centroid) (simp add: wellformed_def blank1x1_def)
qed

section \<open>The tone curve over the reals\<close>

lemma ln_tangent:
  fixes a t :: real
  assumes "0 < a" "0 < t"
  shows "ln a \<le> ln t + (a - t) / t"
proof -
  have "ln (a / t) \<le> a / t - 1"
    using assms by (intro ln_le_minus_one) simp
  then show ?thesis
    using assms by (simp add: ln_div diff_divide_distrib)
qed

lemma ln2_lower: "4 / 7 \<le> ln (2::real)"
proof -
  have "ln (5 / 7 :: real) \<le> 5 / 7 - 1" by (intro ln_le_minus_one) simp
  then have "2 / 7 \<le> ln (7 / 5 :: real)" by (simp add: ln_div)
  moreover have "(7 / 5) ^ 2 \<le> (2::real)" by (simp add: power2_eq_square)
  then have "ln ((7 / 5) ^ 2 :: real) \<le> ln 2"
    using ln_mono [of "(7 / 5) ^ 2" 2] by simp
  ultimately show ?thesis by (simp add: ln_realpow)
qed

lemma ln2_upper: "ln (2::real) \<le> 18 / 25"
proof -
  have "ln (209 / 200 :: real) \<le> 209 / 200 - 1" by (intro ln_le_minus_one) simp
  moreover have "(2::real) \<le> (209 / 200) ^ 16" by (simp add: power_divide)
  then have "ln 2 \<le> ln ((209 / 200) ^ 16 :: real)"
    using ln_mono [of 2 "(209 / 200) ^ 16"] by simp
  ultimately show ?thesis by (simp add: ln_realpow)
qed

lemma ln256: "ln (256::real) = 8 * ln 2"
proof -
  have "(256::real) = 2 ^ 8" by simp
  then show ?thesis by (simp only: ln_realpow)
qed

lemma ln255_lower: "8 * ln 2 - 1 / 255 \<le> ln (255::real)"
  using ln_tangent [of 256 255] by (simp add: ln256)

lemma ln254_lower: "8 * ln 2 - 1 / 127 \<le> ln (254::real)"
  using ln_tangent [of 256 254] by (simp add: ln256)

lemma ln253_upper: "ln (253::real) \<le> 8 * ln 2 - 3 / 256"
  using ln_tangent [of 253 256] by (simp add: ln256)

lemma stretchValue_eq: "stretchValue v = 255 * ln (1 + v) / (8 * ln 2)"
  by (simp add: stretchValue_def ln256)

lemma stretchValue_0: "stretchValue 0 = 0"
  by (simp add: stretchValue_def)

lemma stretchValue_255: "stretchValue 255 = 255"
  by (simp add: stretchValue_def)

lemma stretchValue_strict_mono:
  assumes "0 \<le> a" "a < b"
  shows "stretchValue a < stretchValue b"
proof -
  have "ln (1 + a) < ln (1 + b)" using assms by simp
  moreover have "0 < 255 / ln (1 + 255 :: real)" by simp
  ultimately show ?thesis
    unfolding stretchValue_def by (rule mult_strict_left_mono)
qed

lemma stretchValue_mono:
  assumes "0 \<le> a" "a \<le> b"
  shows "stretchValue a \<le> stretchValue b"
proof (cases "a = b")
  case True
  then show ?thesis by simp
next
  case False
  then have "a < b" using assms(2) by simp
  then show ?thesis using stretchValue_strict_mono [OF assms(1)] by (simp add: less_imp_le)
qed

lemma stretchValue_252: "stretchValue 252 < 509 / 2"
proof -
  have pos: "0 < ln (2::real)" by simp
  have "255 * ln (253::real) \<le> 2040 * ln 2 - 765 / 256"
    using ln253_upper by simp
  also have "\<dots> < 2036 * ln 2" using ln2_upper by simp
  finally have "255 * ln (253::real) < 509 / 2 * (8 * ln 2)" by simp
  then have "255 * ln (253::real) / (8 * ln 2) < 509 / 2"
    using pos by (simp add: pos_divide_less_eq)
  then show ?thesis by (simp add: stretchValue_eq)
qed

lemma stretchValue_253: "509 / 2 < stretchValue 253"
proof -
  have pos: "0 < ln (2::real)" by simp
  have "2036 * ln (2::real) < 2040 * ln 2 - 255 / 127" using ln2_lower by simp
  also have "\<dots> \<le> 255 * ln (254::real)" using ln254_lower by simp
  finally have "509 / 2 * (8 * ln 2) < 255 * ln (254::real)" by simp
  then have "509 / 2 < 255 * ln (254::real) / (8 * ln 2)"
    using pos by (simp add: pos_less_divide_eq)
  then show ?thesis by (simp add: stretchValue_eq)
qed

text \<open>The logarithm lies above its chord between 2 and 255.\<close>

lemma ln_chord:
  fixes t :: real
  assumes "2 \<le> t" "t \<le> 255"
  shows "(255 - t) * ln 2 + (t - 2) * ln 255 \<le> 253 * ln t"
proof -
  have t: "0 < t" using assms by simp
  have "(255 - t) * ln 2 \<le> (255 - t) * (ln t + (2 - t) / t)"
    using assms ln_tangent [of 2 t] t by (intro mult_left_mono) simp_all
  moreover have "(t - 2) * ln 255 \<le> (t - 2) * (ln t + (255 - t) / t)"
    using assms ln_tangent [of 255 t] t by (intro mult_left_mono) simp_all
  moreover have "(255 - t) * (ln t + (2 - t) / t) + (t - 2) * (ln t + (255 - t) / t)
      = 253 * ln t"
    using t by (simp add: field_simps)
  ultimately show ?thesis by linarith
qed

text \<open>Strictly between 0 and 255 the curve is more than a half above the diagonal.\<close>

lemma stretchValue_above:
  fixes v :: real
  assumes "1 \<le> v" "v \<le> 254"
  shows "v + 1 / 2 < stretchValue v"
proof -
  define t where "t = 1 + v"
  define L where "L = ln (2::real)"
  have t: "2 \<le> t" "t \<le> 255" using assms by (simp_all add: t_def)
  have L: "4 / 7 \<le> L" "0 < L" using ln2_lower by (simp_all add: L_def)
  have chord: "(255 - t) * L + (t - 2) * ln 255 \<le> 253 * ln t"
    using ln_chord [OF t] by (simp add: L_def)
  have "(t - 2) * (8 * L - 1 / 255) \<le> (t - 2) * ln 255"
    using t ln255_lower by (intro mult_left_mono) (simp_all add: L_def)
  define A where "A = (255 - t) * L + (t - 2) * (8 * L - 1 / 255)"
  define B where "B = 8 * (t - 1 / 2) * L"
  define P where "P = (61957 - 239 * t) * L"
  have lower: "A \<le> 253 * ln t"
    unfolding A_def using chord \<open>(t - 2) * (8 * L - 1 / 255) \<le> (t - 2) * ln 255\<close>
    by linarith
  have "(61957 - 239 * t) * (4 / 7) \<le> P"
    unfolding P_def using t L by (intro mult_left_mono) simp_all
  then have "247828 / 7 - 956 / 7 * t \<le> P" by (simp add: algebra_simps)
  then have "0 < P - t + 2" using t by linarith
  moreover have "P - t + 2 = 255 * A - 253 * B"
    by (simp add: P_def A_def B_def field_simps)
  ultimately have "253 * B < 255 * (253 * ln t)"
    using lower by linarith
  then have "B < 255 * ln t" by simp
  then have "(t - 1 / 2) * (8 * L) < 255 * ln t" by (simp add: B_def mult.commute mult.left_commute)
  then have "t - 1 / 2 < 255 * ln t / (8 * L)"
    using L by (simp add: pos_less_divide_eq)
  then show ?thesis by (simp add: stretchValue_eq t_def L_def)
qed

section \<open>The store into the byte array\<close>

lemma uint_word_of_int_byte:
  assumes "0 \<le> k" "k \<le> 255"
  shows "uint (word_of_int k :: 8 word) = k"
  using assms by (simp add: uint_word_of_int_eq take_bit_int_eq_self)

text \<open>The byte stored is within a half of the clamped number.\<close>

lemma toUint8Clamp_near:
  "min (max r 0) 255 - 1 / 2 \<le> real_of_int (uint (toUint8Clamp r)) \<and>
   real_of_int (uint (toUint8Clamp r)) \<le> min (max r 0) 255 + 1 / 2"
proof -
  define c where "c = min (max r 0) 255"
  define f where "f = \<lfloor>c\<rfloor>"
  have c: "0 \<le> c" "c \<le> 255" by (simp_all add: c_def)
  have f: "real_of_int f \<le> c" "c < real_of_int f + 1" by (simp_all add: f_def)
  have f0: "0 \<le> f" using c(1) by (simp add: f_def)
  have f255: "f \<le> 255" using c(2) f(1) by (simp add: f_def floor_le_iff)
  have room: "f + 1 \<le> 255" if "real_of_int f + 0.5 \<le> c"
  proof -
    from that c(2) have "real_of_int f < 255" by simp
    then have "f < 255" by linarith
    then show ?thesis by simp
  qed
  have res: "toUint8Clamp r =
      (if c < real_of_int f + 0.5 then word_of_int f
       else if c > real_of_int f + 0.5 then word_of_int (f + 1)
       else if even f then word_of_int f else word_of_int (f + 1))"
    by (simp add: toUint8Clamp_def Let_def c_def f_def)
  consider (down) "toUint8Clamp r = word_of_int f" "c \<le> real_of_int f + 0.5"
    | (up) "toUint8Clamp r = word_of_int (f + 1)" "real_of_int f + 0.5 \<le> c"
    unfolding res by (cases "c < real_of_int f + 0.5"; cases "c > real_of_int f + 0.5";
      cases "even f") auto
  then have "c - 1 / 2 \<le> real_of_int (uint (toUint8Clamp r)) \<and>
      real_of_int (uint (toUint8Clamp r)) \<le> c + 1 / 2"
  proof cases
    case down
    have "uint (toUint8Clamp r) = f"
      unfolding down(1) using f0 f255 by (rule uint_word_of_int_byte)
    then show ?thesis using f down(2) by simp
  next
    case up
    have "uint (toUint8Clamp r) = f + 1"
      unfolding up(1) using f0 room [OF \<open>real_of_int f + 0.5 \<le> c\<close>]
      by (intro uint_word_of_int_byte) simp_all
    then show ?thesis using f \<open>real_of_int f + 0.5 \<le> c\<close> by simp
  qed
  then show ?thesis by (simp only: c_def)
qed

lemma unat_byte_le: "real (unat (x :: 8 word)) \<le> 255"
proof -
  have "unat x < 2 ^ 8" using unsigned_less [of x, where ?'a = nat] by simp
  then have "unat x \<le> 255" by simp
  then have "real (unat x) \<le> real 255" by (rule of_nat_mono)
  then show ?thesis by simp
qed

lemma stretchValue_range:
  "0 \<le> stretchValue (real (unat (x :: 8 word)))" "stretchValue (real (unat (x :: 8 word))) \<le> 255"
proof -
  have "stretchValue 0 \<le> stretchValue (real (unat x))"
    by (rule stretchValue_mono) (simp_all del: of_nat_unat)
  then show "0 \<le> stretchValue (real (unat x))" by (simp add: stretchValue_0)
  have "stretchValue (real (unat x)) \<le> stretchValue 255"
    by (rule stretchValue_mono [OF _ unat_byte_le]) (rule of_nat_0_le_iff)
  then show "stretchValue (real (unat x)) \<le> 255" by (simp add: stretchValue_255)
qed

lemma logStretch_near:
  "stretchValue (real (unat x)) - 1 / 2 \<le> real_of_int (uint (logStretch x))"
  "real_of_int (uint (logStretch x)) \<le> stretchValue (real (unat x)) + 1 / 2"
proof -
  have "min (max (stretchValue (real (unat x))) 0) 255 = stretchValue (real (unat x))"
    using stretchValue_range [of x] by simp
  with toUint8Clamp_near [of "stretchValue (real (unat x))"]
  show "stretchValue (real (unat x)) - 1 / 2 \<le> real_of_int (uint (logStretch x))"
    "real_of_int (uint (logStretch x)) \<le> stretchValue (real (unat x)) + 1 / 2"
    by (simp_all add: logStretch_def)
qed

lemma uint_byte_le: "uint (x :: 8 word) \<le> 255"
  using uint_bounded [of x] by simp

lemma real_uint_unat: "real_of_int (uint (x :: 8 word)) = real (unat x)"
  by simp

section \<open>The stretched channel\<close>

lemma logStretch_mono:
  assumes "x \<le> y"
  shows "logStretch x \<le> logStretch y"
proof (cases "x = y")
  case True
  then show ?thesis by simp
next
  case False
  then have "unat x \<noteq> unat y" by (simp add: word_unat_eq_iff)
  moreover have "unat x \<le> unat y" using assms by (simp add: word_le_nat_alt)
  ultimately have "unat x < unat y" by simp
  then have "stretchValue (real (unat x)) < stretchValue (real (unat y))"
    by (intro stretchValue_strict_mono) (simp_all del: of_nat_unat)
  with logStretch_near(2) [of x] logStretch_near(1) [of y]
  have "real_of_int (uint (logStretch x)) < real_of_int (uint (logStretch y)) + 1"
    by linarith
  then have "uint (logStretch x) \<le> uint (logStretch y)" by linarith
  then show ?thesis by (simp add: word_le_def)
qed

lemma logStretch_above:
  assumes "0 < x" "x < 255"
  shows "x < logStretch x"
proof -
  have "0 < unat x" "unat x < 255"
    using assms by (simp_all add: word_less_nat_alt)
  then have "1 \<le> real (unat x)" "real (unat x) \<le> 254"
    by (simp_all del: of_nat_unat)
  then have "real (unat x) + 1 / 2 < stretchValue (real (unat x))"
    by (rule stretchValue_above)
  with logStretch_near(1) [of x] real_uint_unat [of x]
  have "real_of_int (uint x) < real_of_int (uint (logStretch x))"
    by linarith
  then have "uint x < uint (logStretch x)" by linarith
  then show ?thesis by (simp add: word_less_def)
qed

lemma logStretch_0: "logStretch 0 = 0"
proof -
  have "real_of_int (uint (logStretch 0)) \<le> 1 / 2"
    using logStretch_near(2) [of 0] by (simp add: stretchValue_0)
  then have "uint (logStretch 0) \<le> 0" by linarith
  then have "uint (logStretch 0) = 0" by (simp add: order_antisym)
  then show ?thesis by (simp add: word_uint_eq_iff)
qed

lemma logStretch_top:
  assumes "253 \<le> x"
  shows "logStretch x = 255"
proof -
  have "253 \<le> unat x" using assms by (simp add: word_le_nat_alt)
  then have "stretchValue 253 \<le> stretchValue (real (unat x))"
    by (intro stretchValue_mono) (simp_all del: of_nat_unat)
  with stretchValue_253 logStretch_near(1) [of x]
  have "254 < real_of_int (uint (logStretch x))" by linarith
  then have "255 \<le> uint (logStretch x)" by linarith
  with uint_byte_le [of "logStretch x"] have "uint (logStretch x) = uint (255 :: 8 word)"
    by simp
  then show ?thesis by (simp only: word_uint_eq_iff)
qed

lemma logStretch_below_top:
  assumes "x < 253"
  shows "logStretch x < 255"
proof -
  have "unat x \<le> 252" using assms by (simp add: word_less_nat_alt)
  then have "stretchValue (real (unat x)) \<le> stretchValue 252"
    by (intro stretchValue_mono) (simp_all del: of_nat_unat)
  with stretchValue_252 logStretch_near(2) [of x]
  have "real_of_int (uint (logStretch x)) < 255" by linarith
  then have "uint (logStretch x) < 255" by linarith
  then have "uint (logStretch x) < uint (255 :: 8 word)" by simp
  then show ?thesis by (simp only: word_less_def)
qed

lemma logStretch_fixed_point: "logStretch x = x \<longleftrightarrow> x = 0 \<or> x = 255"
proof
  assume fp: "logStretch x = x"
  show "x = 0 \<or> x = 255"
  proof (rule ccontr)
    assume n: "\<not> (x = 0 \<or> x = 255)"
    then have "0 < x" by (simp add: word_greater_zero_iff)
    moreover have "uint x \<noteq> uint (255 :: 8 word)"
      using n by (simp only: word_uint_eq_iff [symmetric]) simp
    then have "x < 255"
      using uint_byte_le [of x] by (simp add: word_less_def)
    ultimately have "0 < x" "x < 255" by simp_all
    then have "x < logStretch x" by (rule logStretch_above)
    with fp show False by simp
  qed
next
  assume "x = 0 \<or> x = 255"
  then show "logStretch x = x"
    using logStretch_0 logStretch_top [of 255] by auto
qed

lemma logStretch_twice:
  assumes "0 < x" "x < 253"
  shows "logStretch (logStretch x) \<noteq> logStretch x"
proof -
  have "x < 255" using assms(2) by (simp add: word_less_def)
  with assms(1) have "x < logStretch x" by (rule logStretch_above)
  then have "0 < logStretch x" using assms(1) by (simp add: word_less_def)
  moreover have "logStretch x < 255" using assms(2) by (rule logStretch_below_top)
  ultimately have "logStretch x < logStretch (logStretch x)" by (rule logStretch_above)
  then show ?thesis by simp
qed

section \<open>The loop over the buffer\<close>

lemma stretchData_length: "length (stretchData d) = length d"
  by (induction d rule: stretchData.induct) simp_all

lemma stretchData_nth:
  "i < length d \<Longrightarrow>
     stretchData d ! i = (if i mod 4 = 3 then d ! i else logStretch (d ! i))"
proof (induction d arbitrary: i rule: stretchData.induct)
  case (1 r g b a rest)
  show ?case
  proof (cases "i < 4")
    case True
    then consider "i = 0" | "i = 1" | "i = 2" | "i = 3" by linarith
    then show ?thesis by cases simp_all
  next
    case False
    then obtain j where j: "i = j + 4" by (metis le_add_diff_inverse2 not_less)
    with "1.prems" have "j < length rest" by simp
    then have "stretchData rest ! j = (if j mod 4 = 3 then rest ! j else logStretch (rest ! j))"
      by (rule "1.IH")
    then show ?thesis by (simp add: j)
  qed
next
  case (2 r g b)
  then consider "i = 0" | "i = 1" | "i = 2" by fastforce
  then show ?case by cases simp_all
next
  case (3 r g)
  then consider "i = 0" | "i = 1" by fastforce
  then show ?case by cases simp_all
next
  case (4 r)
  then show ?case by simp
next
  case 5
  then show ?case by simp
qed

text \<open>
  C5. The log stretch stores \<open>255 / ln 256 * ln (1 + v)\<close> rounded to a byte in each of
  R, G and B and leaves alpha as it is. The curve is strictly increasing, and the
  stored channel map is monotonically increasing in the weak sense; its only fixed
  points are 0 and 255. Stretching twice differs from stretching once for every
  channel value \<open>0 < x < 253\<close>. The values 253 and 254 are stored as 255, which the
  stretch keeps, so there the claim's \<open>stretch (stretch x) \<noteq> stretch x\<close> fails.
\<close>

theorem log_stretch_channel_map:
  "(0 \<le> a \<and> a < b \<longrightarrow> stretchValue a < stretchValue b) \<and>
   (x \<le> y \<longrightarrow> logStretch x \<le> logStretch y) \<and>
   (logStretch x = x \<longleftrightarrow> x = 0 \<or> x = 255) \<and>
   (0 < x \<and> x < 253 \<longrightarrow> logStretch (logStretch x) \<noteq> logStretch x) \<and>
   (253 \<le> x \<longrightarrow> logStretch x = 255) \<and>
   (i < length (data img) \<longrightarrow>
      data (cropImageData img True) ! i =
        (if i mod 4 = 3 then data img ! i else logStretch (data img ! i)))"
proof (intro conjI impI)
  assume "0 \<le> a \<and> a < b"
  then show "stretchValue a < stretchValue b" by (simp add: stretchValue_strict_mono)
next
  assume "x \<le> y"
  then show "logStretch x \<le> logStretch y" by (rule logStretch_mono)
next
  show "logStretch x = x \<longleftrightarrow> x = 0 \<or> x = 255" by (rule logStretch_fixed_point)
next
  assume "0 < x \<and> x < 253"
  then show "logStretch (logStretch x) \<noteq> logStretch x" by (simp add: logStretch_twice)
next
  assume "253 \<le> x"
  then show "logStretch x = 255" by (rule logStretch_top)
next
  assume "i < length (data img)"
  then show "data (cropImageData img True) ! i =
      (if i mod 4 = 3 then data img ! i else logStretch (data img ! i))"
    by (simp add: cropImageData_def stretchData_nth)
qed

theorem log_stretch_channel_map_witness:
  "stretchValue 1 < stretchValue 2 \<and>
   logStretch 100 \<le> logStretch 200 \<and>
   logStretch (logStretch 100) \<noteq> logStretch 100 \<and>
   logStretch 254 = 255 \<and>
   data (cropImageData twoPixels True) ! 3 = 255 \<and>
   data (cropImageData twoPixels True) ! 4 = logStretch 200"
proof -
  note low = log_stretch_channel_map [of 1 2 100 200 3 twoPixels]
  note high = log_stretch_channel_map [of 1 2 254 255 4 twoPixels]
  have len: "length (data twoPixels) = 8" and d3: "data twoPixels ! 3 = 255"
    and d4: "data twoPixels ! 4 = 200"
    by (simp_all add: twoPixels_def)
  have "stretchValue 1 < stretchValue 2" using low by simp
  moreover have "logStretch 100 \<le> logStretch 200" using low by simp
  moreover have "logStretch (logStretch 100) \<noteq> logStretch 100" using low by simp
  moreover have "logStretch 254 = 255" using high by simp
  moreover have "data (cropImageData twoPixels True) ! 3 = 255"
    using low len d3 by simp
  moreover have "data (cropImageData twoPixels True) ! 4 = logStretch 200"
    using high len d4 by simp
  ultimately show ?thesis by blast
qed

theorem log_stretch_twice_counterexample:
  "(0 :: 8 word) < 254 \<and> (254 :: 8 word) < 255 \<and>
   logStretch (logStretch 254) = logStretch 254 \<and> logStretch 253 = logStretch 254"
proof -
  have "logStretch 253 = 255" "logStretch 254 = 255" "logStretch 255 = 255"
    by (rule logStretch_top, simp)+
  then show ?thesis by simp
qed

end
